theory Spec2Isabelle
  imports Main "HOL-Library.Sublist" "HOL-Library.Multiset"
begin

section \<open>Strings of the script\<close>

text \<open>
  A JavaScript string is a sequence of UTF-16 code units. The model is \<open>string\<close>
  (\<open>char list\<close>), one \<open>char\<close> per code unit, for strings whose code units are
  below 256. In that range the white space of \<open>trim\<close> and of the regular expression
  class \<open>\s\<close> is TAB, LF, VT, FF, CR, SPACE and NBSP, and the line terminators (which
  \<open>.\<close> does not match) are LF and CR.
\<close>

abbreviation LF :: char where "LF \<equiv> CHR 0x0A"
abbreviation CR :: char where "CR \<equiv> CHR 0x0D"
abbreviation DQ :: char where "DQ \<equiv> CHR 0x22"

definition is_ws :: "char \<Rightarrow> bool" where
  "is_ws c = (c = CHR 0x09 \<or> c = LF \<or> c = CHR 0x0B \<or> c = CHR 0x0C \<or> c = CR
             \<or> c = CHR 0x20 \<or> c = CHR 0xA0)"

definition is_lt :: "char \<Rightarrow> bool" where
  "is_lt c = (c = LF \<or> c = CR)"

definition trimStart :: "string \<Rightarrow> string" where
  "trimStart s = dropWhile is_ws s"

definition trimEnd :: "string \<Rightarrow> string" where
  "trimEnd s = rev (dropWhile is_ws (rev s))"

definition trim :: "string \<Rightarrow> string" where
  "trim s = trimStart (trimEnd s)"

definition startsWith :: "string \<Rightarrow> string \<Rightarrow> bool" where
  "startsWith s p = prefix p s"

text \<open>\<open>s.replace(/c/g, r)\<close> for a single character \<open>c\<close> and a replacement \<open>r\<close> without \<open>$\<close>.\<close>

definition replace_char :: "char \<Rightarrow> string \<Rightarrow> string \<Rightarrow> string" where
  "replace_char c r s = concat (map (\<lambda>x. if x = c then r else [x]) s)"

text \<open>\<open>md.replace(/\r\n/g, "\n")\<close>\<close>

fun replace_crlf :: "string \<Rightarrow> string" where
  "replace_crlf [] = []"
| "replace_crlf [c] = [c]"
| "replace_crlf (c # d # s) =
     (if c = CR \<and> d = LF then LF # replace_crlf s else c # replace_crlf (d # s))"

text \<open>\<open>s.split("\n")\<close>: the empty string gives one empty line.\<close>

fun split_nl :: "string \<Rightarrow> string list" where
  "split_nl [] = [[]]"
| "split_nl (c # s) =
     (if c = LF then [] # split_nl s
      else (case split_nl s of [] \<Rightarrow> [[c]] | l # ls \<Rightarrow> (c # l) # ls))"

text \<open>\<open>out.join("\n")\<close>\<close>

fun join_nl :: "string list \<Rightarrow> string" where
  "join_nl [] = []"
| "join_nl [x] = x"
| "join_nl (x # y # ys) = x @ LF # join_nl (y # ys)"

section \<open>The markdown converter\<close>

subsection \<open>Inline markup\<close>

text \<open>\<open>esc\<close>: four global replacements, \<open>&\<close> first.\<close>

definition esc :: "string \<Rightarrow> string" where
  "esc str =
     replace_char DQ ''&quot;''
       (replace_char (CHR ''>'') ''&gt;''
         (replace_char (CHR ''<'') ''&lt;''
           (replace_char (CHR ''&'') ''&amp;'' str)))"

text \<open>
  \<open>s.replace(/`([^`]+)`/g, "<code>$1</code>")\<close>. At a backtick the greedy class takes
  every following character up to the next backtick; the match needs at least one such
  character and the closing backtick. The scan goes on after a match, or one character
  further where there is none.
\<close>

abbreviation not_tick :: "char \<Rightarrow> bool" where
  "not_tick \<equiv> (\<lambda>x. x \<noteq> CHR 0x60)"

function replace_code :: "string \<Rightarrow> string" where
  "replace_code [] = []"
| "replace_code (c # cs) =
     (if c = CHR 0x60 \<and> takeWhile not_tick cs \<noteq> [] \<and> dropWhile not_tick cs \<noteq> []
      then ''<code>'' @ takeWhile not_tick cs @ ''</code>''
             @ replace_code (tl (dropWhile not_tick cs))
      else c # replace_code cs)"
  by pat_completeness auto
termination
proof (relation "measure length")
  fix c :: char and cs :: string
  have "length (tl (dropWhile not_tick cs)) \<le> length cs"
    using length_dropWhile_le [of not_tick cs] by simp
  then show "(tl (dropWhile not_tick cs), c # cs) \<in> measure length" by simp
qed simp_all

text \<open>
  The link pattern \<open>/\[([^\]]+)\]\(([^)]+)\)/\<close> tried just after an opening bracket:
  the text runs to the next \<open>]\<close> and is not empty, \<open>](\<close> follows, the url runs to the
  next \<open>)\<close> and is not empty. The result is the text, the url and what follows the match.
\<close>

abbreviation not_rbr :: "char \<Rightarrow> bool" where
  "not_rbr \<equiv> (\<lambda>x. x \<noteq> CHR '']'')"

abbreviation not_rpar :: "char \<Rightarrow> bool" where
  "not_rpar \<equiv> (\<lambda>x. x \<noteq> CHR '')'')"

definition match_link :: "string \<Rightarrow> (string \<times> string \<times> string) option" where
  "match_link cs =
     (let text = takeWhile not_rbr cs; r1 = dropWhile not_rbr cs in
      if text \<noteq> [] \<and> prefix '']('' r1 then
        (let r2 = drop 2 r1; url = takeWhile not_rpar r2; r3 = dropWhile not_rpar r2 in
         if url \<noteq> [] \<and> r3 \<noteq> [] then Some (text, url, tl r3) else None)
      else None)"

definition safe_url :: "string \<Rightarrow> bool" where
  "safe_url u = (startsWith u ''http://'' \<or> startsWith u ''https://'' \<or> startsWith u ''/''
                 \<or> startsWith u ''./'' \<or> startsWith u ''../'')"

definition anchor_open :: string where
  "anchor_open = ''<a href='' @ [DQ]"

definition anchor_attrs :: string where
  "anchor_attrs = [DQ] @ '' target='' @ [DQ] @ ''_blank'' @ [DQ] @ '' rel='' @ [DQ]
                    @ ''noreferrer'' @ [DQ] @ ''>''"

text \<open>The replacement callback of the link pattern.\<close>

definition link_cb :: "string \<Rightarrow> string \<Rightarrow> string" where
  "link_cb text url =
     (let u = trim url in
      if \<not> safe_url u then esc text
      else anchor_open @ esc u @ anchor_attrs @ esc text @ ''</a>'')"

function replace_links :: "string \<Rightarrow> string" where
  "replace_links [] = []"
| "replace_links (c # cs) =
     (if c = CHR ''['' then
        (case match_link cs of
           Some (text, url, rest) \<Rightarrow> link_cb text url @ replace_links rest
         | None \<Rightarrow> c # replace_links cs)
      else c # replace_links cs)"
  by pat_completeness auto
termination
proof -
  have len: "length (dropWhile not_rpar (drop 2 (dropWhile not_rbr cs))) - Suc 0 < Suc (length cs)"
    for cs :: string
  proof -
    let ?r1 = "dropWhile not_rbr cs"
    let ?r2 = "drop 2 ?r1"
    have "length (dropWhile not_rpar ?r2) - Suc 0 \<le> length (dropWhile not_rpar ?r2)" by simp
    also have "\<dots> \<le> length ?r2" by (rule length_dropWhile_le)
    also have "\<dots> \<le> length ?r1" by simp
    also have "\<dots> \<le> length cs" by (rule length_dropWhile_le)
    finally show ?thesis by simp
  qed
  show ?thesis
    by (relation "measure length") (auto simp: match_link_def Let_def len split: if_splits)
qed

definition inline :: "string \<Rightarrow> string" where
  "inline str = replace_links (replace_code (esc str))"

subsection \<open>Lines\<close>

text \<open>
  The tail of the heading and list patterns, \<open>\s+(.*)$\<close>, tried on what follows the
  marker: at least one white-space character, then a rest without line terminators up
  to the end of the line. The greedy \<open>\s+\<close> takes the whole white-space run, and giving
  characters back cannot help, since every line terminator is white space. The result
  is the captured rest.
\<close>

definition ws_rest :: "string \<Rightarrow> string option" where
  "ws_rest r =
     (let rest = dropWhile is_ws r in
      if r \<noteq> [] \<and> is_ws (hd r) \<and> list_all (\<lambda>c. \<not> is_lt c) rest then Some rest else None)"

text \<open>\<open>line.match(/^###\s+(.*)$/)\<close> and its two shorter forms: the capture, if any.\<close>

definition match_h :: "string \<Rightarrow> string \<Rightarrow> string option" where
  "match_h marker line =
     (if prefix marker line then ws_rest (drop (length marker) line) else None)"

text \<open>\<open>line.match(/^[-*]\s+(.*)$/)\<close>\<close>

definition match_li :: "string \<Rightarrow> string option" where
  "match_li line =
     (case line of
        [] \<Rightarrow> None
      | c # r \<Rightarrow> if c = CHR ''-'' \<or> c = CHR ''*'' then ws_rest r else None)"

text \<open>\<open>line.trim().replace(/^>\s?/, "")\<close> on a trimmed line that starts with \<open>>\<close>.\<close>

definition strip_quote :: "string \<Rightarrow> string" where
  "strip_quote t =
     (case t of
        [] \<Rightarrow> []
      | c # r \<Rightarrow>
          if c = CHR ''>'' then (case r of [] \<Rightarrow> [] | d # r' \<Rightarrow> if is_ws d then r' else r)
          else t)"

text \<open>The two variables the loop of \<open>mdToHtml\<close> updates.\<close>

record md_state =
  out :: "string list"
  inList :: bool

definition push :: "string \<Rightarrow> md_state \<Rightarrow> md_state" where
  "push x st = st\<lparr>out := out st @ [x]\<rparr>"

definition closeList :: "md_state \<Rightarrow> md_state" where
  "closeList st = (if inList st then (push ''</ul>'' st)\<lparr>inList := False\<rparr> else st)"

text \<open>The body of the loop over the lines, in the order of the source.\<close>

definition md_line :: "string \<Rightarrow> md_state \<Rightarrow> md_state" where
  "md_line raw st =
     (let line = trimEnd raw in
      if trim line = [] then closeList st
      else if startsWith (trim line) ''>'' then
        push (''<blockquote>'' @ inline (strip_quote (trim line)) @ ''</blockquote>'')
          (closeList st)
      else case match_h ''###'' line of
        Some t \<Rightarrow> push (''<h3>'' @ inline t @ ''</h3>'') (closeList st)
      | None \<Rightarrow>
     (case match_h ''##'' line of
        Some t \<Rightarrow> push (''<h2>'' @ inline t @ ''</h2>'') (closeList st)
      | None \<Rightarrow>
     (case match_h ''#'' line of
        Some t \<Rightarrow> push (''<h1>'' @ inline t @ ''</h1>'') (closeList st)
      | None \<Rightarrow>
     (case match_li line of
        Some t \<Rightarrow>
          push (''<li>'' @ inline t @ ''</li>'')
            (if \<not> inList st then (push ''<ul>'' st)\<lparr>inList := True\<rparr> else st)
      | None \<Rightarrow> push (''<p>'' @ inline line @ ''</p>'') (closeList st)))))"

definition md_lines :: "string list \<Rightarrow> md_state \<Rightarrow> md_state" where
  "md_lines ls st = fold md_line ls st"

definition md_out :: "string \<Rightarrow> string list" where
  "md_out md =
     out (closeList (md_lines (split_nl (replace_crlf md)) \<lparr>out = [], inList = False\<rparr>))"

definition mdToHtml :: "string \<Rightarrow> string" where
  "mdToHtml md = join_nl (md_out md)"

section \<open>Projects\<close>

text \<open>
  A project as \<open>data.json\<close> gives it: every field but the three flags may be missing
  (\<open>None\<close>). The flags are read by truthiness, so a missing flag is \<open>False\<close>.
\<close>

record link =
  url :: "string option"
  label :: "string option"

datatype image = ImagePath string | ImageObj "string option" "string option"

record project =
  ident :: "string option"
  title :: "string option"
  date :: "string option"
  description :: "string option"
  status :: "string option"
  tags :: "string list option"
  links :: "link list option"
  images :: "image list option"
  isDraft :: bool
  isArchived :: bool
  isPrivate :: bool

text \<open>\<open>x || ""\<close> on an optional string, and the truthiness of one.\<close>

definition or_empty :: "string option \<Rightarrow> string" where
  "or_empty x = (case x of None \<Rightarrow> [] | Some s \<Rightarrow> s)"

definition truthy :: "string option \<Rightarrow> bool" where
  "truthy x = (case x of None \<Rightarrow> False | Some s \<Rightarrow> s \<noteq> [])"

text \<open>\<open>p.tags || []\<close>\<close>

definition tags_of :: "project \<Rightarrow> string list" where
  "tags_of p = (case tags p of None \<Rightarrow> [] | Some ts \<Rightarrow> ts)"

section \<open>What the browser provides\<close>

text \<open>
  The script calls the date parser and formatters, the clock, the random number
  generator, the collation of strings and the address of the page. They are parameters
  of the model. \<open>getTime\<close> is \<open>new Date(s).getTime()\<close>, with \<open>None\<close> for \<open>NaN\<close> (a string
  that does not parse). \<open>nowUTC k\<close> and \<open>random k\<close> are what \<open>new Date().toUTCString()\<close>
  and \<open>String(Math.random())\<close> give while the feed item at index \<open>k\<close> is built.
\<close>

record platform =
  getTime :: "string \<Rightarrow> int option"
  toUTCString :: "int option \<Rightarrow> string"
  toLocaleDateString :: "int \<Rightarrow> string"
  nowUTC :: "nat \<Rightarrow> string"
  random :: "nat \<Rightarrow> string"
  localeCompare :: "string \<Rightarrow> string \<Rightarrow> int"
  location_href :: string

text \<open>\<open>toLowerCase\<close> on code units below 256.\<close>

definition lower_char :: "char \<Rightarrow> char" where
  "lower_char c =
     (let n = (of_char c :: nat) in
      if (65 \<le> n \<and> n \<le> 90) \<or> (192 \<le> n \<and> n \<le> 222 \<and> n \<noteq> 215) then char_of (n + 32)
      else c)"

definition toLowerCase :: "string \<Rightarrow> string" where
  "toLowerCase s = map lower_char s"

definition normalize_str :: "string \<Rightarrow> string" where
  "normalize_str s = trim (toLowerCase s)"

text \<open>\<open>hay.includes(q)\<close>\<close>

definition str_includes :: "string \<Rightarrow> string \<Rightarrow> bool" where
  "str_includes hay q = sublist q hay"

text \<open>\<open>xs.join(" ")\<close>\<close>

fun join_sp :: "string list \<Rightarrow> string" where
  "join_sp [] = []"
| "join_sp [x] = x"
| "join_sp (x # y # ys) = x @ CHR '' '' # join_sp (y # ys)"

text \<open>
  \<open>Array.prototype.sort\<close> with a comparison function. A result of \<open>NaN\<close> (\<open>None\<close>) counts
  as 0. The sort is stable, so for a consistent comparison its result is the one of
  insertion sort. For an inconsistent one (a comparison that gives \<open>NaN\<close> for some pairs
  only) the language leaves the order to the implementation; the model keeps insertion
  sort there, which an engine need not follow on an array of more than two elements.
\<close>

definition sorts_after :: "('a \<Rightarrow> 'a \<Rightarrow> int option) \<Rightarrow> 'a \<Rightarrow> 'a \<Rightarrow> bool" where
  "sorts_after cmp x y = (case cmp x y of None \<Rightarrow> False | Some v \<Rightarrow> 0 < v)"

fun insert_js :: "('a \<Rightarrow> 'a \<Rightarrow> int option) \<Rightarrow> 'a \<Rightarrow> 'a list \<Rightarrow> 'a list" where
  "insert_js cmp x [] = [x]"
| "insert_js cmp x (y # ys) =
     (if sorts_after cmp x y then y # insert_js cmp x ys else x # y # ys)"

definition sort_js :: "('a \<Rightarrow> 'a \<Rightarrow> int option) \<Rightarrow> 'a list \<Rightarrow> 'a list" where
  "sort_js cmp xs = foldr (insert_js cmp) xs []"

section \<open>The feed\<close>

text \<open>\<open>location.href.replace(/\/index\.html?$/, "/")\<close>\<close>

definition strip_index :: "string \<Rightarrow> string" where
  "strip_index href =
     (if suffix ''/index.html'' href then take (length href - 11) href @ ''/''
      else if suffix ''/index.htm'' href then take (length href - 10) href @ ''/''
      else href)"

text \<open>
  The dash of the channel title is U+2014, outside the range of the model. It stands
  here as the three bytes it has in the source file.
\<close>

definition em_dash :: string where
  "em_dash = [CHR 0xE2, CHR 0x80, CHR 0x94]"

definition rss_head :: "string \<Rightarrow> string" where
  "rss_head base =
     ''<?xml version='' @ [DQ] @ ''1.0'' @ [DQ] @ '' encoding='' @ [DQ] @ ''UTF-8'' @ [DQ]
       @ ''?>'' @ [LF]
     @ ''<rss version='' @ [DQ] @ ''2.0'' @ [DQ] @ ''>'' @ [LF]
     @ ''  <channel>'' @ [LF]
     @ ''    <title>David de la Montombre '' @ em_dash @ '' Experimental Works</title>'' @ [LF]
     @ ''    <link>'' @ base @ ''</link>'' @ [LF]
     @ ''    <description>Project updates</description>'' @ [LF]
     @ ''    ''"

definition rss_tail :: string where
  "rss_tail = [LF] @ ''  </channel>'' @ [LF] @ ''</rss>''"

definition item_link :: "string \<Rightarrow> project \<Rightarrow> string" where
  "item_link base p =
     (case links p of
        Some (l # _) \<Rightarrow> if truthy (url l) then or_empty (url l) else base
      | _ \<Rightarrow> base)"

definition item_pubDate :: "platform \<Rightarrow> nat \<Rightarrow> project \<Rightarrow> string" where
  "item_pubDate pf k p =
     (if truthy (date p) then toUTCString pf (getTime pf (or_empty (date p))) else nowUTC pf k)"

definition item_guid :: "platform \<Rightarrow> nat \<Rightarrow> project \<Rightarrow> string" where
  "item_guid pf k p =
     (if truthy (ident p) then or_empty (ident p)
      else if truthy (title p) then or_empty (title p)
      else random pf k)"

text \<open>The template of one item, for the project at index \<open>k\<close>.\<close>

definition rss_item :: "platform \<Rightarrow> string \<Rightarrow> nat \<Rightarrow> project \<Rightarrow> string" where
  "rss_item pf base k p =
     [LF] @ ''    <item>'' @ [LF]
     @ ''      <title><![CDATA['' @ or_empty (title p) @ '']]></title>'' @ [LF]
     @ ''      <link>'' @ item_link base p @ ''</link>'' @ [LF]
     @ ''      <description><![CDATA['' @ or_empty (description p) @ '']]></description>'' @ [LF]
     @ ''      <pubDate>'' @ item_pubDate pf k p @ ''</pubDate>'' @ [LF]
     @ ''      <guid isPermaLink='' @ [DQ] @ ''false'' @ [DQ] @ ''>'' @ item_guid pf k p
     @ ''</guid>'' @ [LF]
     @ ''    </item>''"

text \<open>\<open>xs.slice(b, e)\<close> for indices that are not negative.\<close>

definition slice :: "nat \<Rightarrow> nat \<Rightarrow> 'a list \<Rightarrow> 'a list" where
  "slice b e xs = take (e - b) (drop b xs)"

text \<open>
  \<open>makeRSS\<close> builds the text of the feed and returns a blob URL for it. The model gives
  the text that the URL resolves to.
\<close>

definition makeRSS :: "platform \<Rightarrow> project list \<Rightarrow> string" where
  "makeRSS pf items =
     (let base = strip_index (location_href pf) in
      rss_head base
      @ concat (map (\<lambda>(k, p). rss_item pf base k p) (enumerate 0 (slice 0 30 items)))
      @ rss_tail)"

section \<open>The page\<close>

text \<open>What \<open>render\<close> writes into one clone of the card template.\<close>

record card_node =
  card_title :: string
  card_date :: string
  card_badges :: "string list"
  card_gallery_hidden :: bool
  card_images :: "(string option \<times> string) list"
  card_desc :: string
  card_tags :: "string list"
  card_links :: "(string option \<times> string) list"

datatype grid_content = Cards "card_node list" | ErrorCard

datatype error = FetchError | JsonError | TypeError

text \<open>
  The state of the page. Arrays are objects: \<open>heap\<close> holds the arrays of projects by
  address, and \<open>all\<close> is the address the variable \<open>all\<close> refers to. The other fields
  are the values of the elements in \<open>els\<close>.
\<close>

record page =
  heap :: "project list list"
  all :: nat
  search_value :: string
  tagFilter_value :: string
  tagFilter_options :: "string list"
  showDrafts :: bool
  showArchived :: bool
  showPrivate :: bool
  grid :: grid_content
  count_text :: string
  rssLink_href :: string
  listeners_wired :: bool
  console :: "error list"

text \<open>A new array on the heap, and the three array operations the script uses.\<close>

definition alloc :: "project list list \<Rightarrow> project list \<Rightarrow> project list list \<times> nat" where
  "alloc h xs = (h @ [xs], length h)"

definition slice_at :: "project list list \<Rightarrow> nat \<Rightarrow> project list list \<times> nat" where
  "slice_at h a = alloc h (h ! a)"

definition sort_at ::
  "(project \<Rightarrow> project \<Rightarrow> int option) \<Rightarrow> project list list \<Rightarrow> nat \<Rightarrow> project list list" where
  "sort_at cmp h a = h[a := sort_js cmp (h ! a)]"

definition filter_at ::
  "(project \<Rightarrow> bool) \<Rightarrow> project list list \<Rightarrow> nat \<Rightarrow> project list list \<times> nat" where
  "filter_at P h a = alloc h (filter P (h ! a))"

definition fmtDate :: "platform \<Rightarrow> string option \<Rightarrow> string" where
  "fmtDate pf isoDate =
     (if \<not> truthy isoDate then []
      else case getTime pf (or_empty isoDate) of
        None \<Rightarrow> or_empty isoDate
      | Some t \<Rightarrow> toLocaleDateString pf t)"

text \<open>The first occurrences, in order: the elements of a \<open>Set\<close> filled from the list.\<close>

definition dedup :: "'a list \<Rightarrow> 'a list" where
  "dedup xs = fold (\<lambda>x acc. if x \<in> set acc then acc else acc @ [x]) xs []"

definition uniqueTags :: "platform \<Rightarrow> project list \<Rightarrow> string list" where
  "uniqueTags pf items =
     sort_js (\<lambda>a b. Some (localeCompare pf a b)) (dedup (concat (map tags_of items)))"

definition image_alt :: "project \<Rightarrow> image \<Rightarrow> string" where
  "image_alt p img =
     (case img of
        ImagePath s \<Rightarrow> if truthy (title p) then or_empty (title p) else ''project image''
      | ImageObj s a \<Rightarrow>
          if truthy a then or_empty a
          else if truthy (title p) then or_empty (title p) else ''project image'')"

definition image_src :: "image \<Rightarrow> string option" where
  "image_src img = (case img of ImagePath s \<Rightarrow> Some s | ImageObj s a \<Rightarrow> s)"

definition render_card :: "platform \<Rightarrow> project \<Rightarrow> card_node" where
  "render_card pf p =
     (let imgs = (case images p of None \<Rightarrow> [] | Some xs \<Rightarrow> xs) in
      \<lparr>card_title = (if truthy (title p) then or_empty (title p) else ''Untitled''),
       card_date = (if truthy (date p) then ''Updated: '' @ fmtDate pf (date p) else []),
       card_badges =
         (if truthy (status p) then [or_empty (status p)] else [])
         @ (if isDraft p then [''Draft''] else [])
         @ (if isArchived p then [''Archived''] else [])
         @ (if isPrivate p then [''Private''] else []),
       card_gallery_hidden = (imgs = []),
       card_images = map (\<lambda>img. (image_src img, image_alt p img)) imgs,
       card_desc = mdToHtml (or_empty (description p)),
       card_tags = tags_of p,
       card_links =
         map (\<lambda>l. (url l, if truthy (label l) then or_empty (label l) else ''Link''))
           (case links p of None \<Rightarrow> [] | Some ls \<Rightarrow> ls)\<rparr>)"

text \<open>A length as \<open>${items.length}\<close> prints it.\<close>

function show_nat :: "nat \<Rightarrow> string" where
  "show_nat n =
     (if n < 10 then [''0123456789'' ! n]
      else show_nat (n div 10) @ [''0123456789'' ! (n mod 10)])"
  by pat_completeness auto
termination
  by (relation "measure id") auto

text \<open>\<open>render(items)\<close>, for the array at address \<open>a\<close>.\<close>

definition render :: "platform \<Rightarrow> nat \<Rightarrow> page \<Rightarrow> page" where
  "render pf a st =
     (let items = heap st ! a in
      st\<lparr>grid := Cards (map (render_card pf) items),
         count_text :=
           show_nat (length items) @ '' project'' @ (if length items = 1 then [] else ''s''),
         rssLink_href := makeRSS pf (heap st ! all st)\<rparr>)"

text \<open>The callback of \<open>all.filter\<close> in \<open>applyFilters\<close>.\<close>

definition keep :: "string \<Rightarrow> string \<Rightarrow> bool \<Rightarrow> bool \<Rightarrow> bool \<Rightarrow> project \<Rightarrow> bool" where
  "keep q tag sDrafts sArchived sPrivate p =
     (if isPrivate p \<and> \<not> sPrivate then False
      else if isDraft p \<and> \<not> sDrafts then False
      else if isArchived p \<and> \<not> sArchived then False
      else
        (let hay = normalize_str (join_sp [or_empty (title p), or_empty (description p),
                                      join_sp (tags_of p)]);
             matchQ = (q = [] \<or> str_includes hay q);
             matchTag = (tag = [] \<or> tag \<in> set (tags_of p))
         in matchQ \<and> matchTag))"

definition page_keep :: "page \<Rightarrow> project \<Rightarrow> bool" where
  "page_keep st =
     keep (normalize_str (search_value st)) (tagFilter_value st)
       (showDrafts st) (showArchived st) (showPrivate st)"

definition applyFilters :: "platform \<Rightarrow> page \<Rightarrow> page" where
  "applyFilters pf st =
     (let (h, filtered) = filter_at (page_keep st) (heap st) (all st)
      in render pf filtered (st\<lparr>heap := h\<rparr>))"

text \<open>The comparison function of the sort in \<open>init\<close>.\<close>

definition date_ms :: "platform \<Rightarrow> project \<Rightarrow> int option" where
  "date_ms pf p = (if truthy (date p) then getTime pf (or_empty (date p)) else Some 0)"

definition by_date :: "platform \<Rightarrow> project \<Rightarrow> project \<Rightarrow> int option" where
  "by_date pf a b =
     (case (date_ms pf a, date_ms pf b) of
        (Some ad, Some bd) \<Rightarrow> Some (bd - ad)
      | _ \<Rightarrow> None)"

text \<open>
  What \<open>fetch\<close> and \<open>res.json()\<close> give: a rejected fetch, a body that does not parse, or
  the parsed value. Of that value the script reads \<open>projects\<close> only: the value may be
  \<open>null\<close> (reading \<open>projects\<close> throws), have no \<open>projects\<close>, have \<open>projects\<close> that is
  not an array (\<open>slice\<close> or \<open>sort\<close> throws), or have an array of projects.
\<close>

datatype data = DataNull | DataNoProjects | DataBadProjects | DataProjects "project list"

datatype response = FetchRejected | BodyRejected | Body data

text \<open>\<open>init\<close> from the assignment to \<open>all\<close> on, for the parsed (or empty) array \<open>ps\<close>.\<close>

definition init_loaded :: "platform \<Rightarrow> project list \<Rightarrow> page \<Rightarrow> page" where
  "init_loaded pf ps st =
     (let (h1, parsed) = alloc (heap st) ps;
          (h2, copy) = slice_at h1 parsed;
          h3 = sort_at (by_date pf) h2 copy;
          st1 = st\<lparr>heap := h3, all := copy\<rparr>;
          st2 = st1\<lparr>tagFilter_options := tagFilter_options st1 @ uniqueTags pf (h3 ! copy)\<rparr>;
          st3 = st2\<lparr>listeners_wired := True\<rparr>
      in applyFilters pf st3)"

text \<open>
  \<open>init\<close>: the state it leaves, and the error it rejects with, if any. Every failure
  of the model comes before the assignment to \<open>all\<close>.
\<close>

definition init :: "platform \<Rightarrow> response \<Rightarrow> page \<Rightarrow> page \<times> error option" where
  "init pf resp st =
     (case resp of
        FetchRejected \<Rightarrow> (st, Some FetchError)
      | BodyRejected \<Rightarrow> (st, Some JsonError)
      | Body DataNull \<Rightarrow> (st, Some TypeError)
      | Body DataBadProjects \<Rightarrow> (st, Some TypeError)
      | Body DataNoProjects \<Rightarrow> (init_loaded pf [] st, None)
      | Body (DataProjects ps) \<Rightarrow> (init_loaded pf ps st, None))"

text \<open>\<open>init().catch(...)\<close>: the script as a whole.\<close>

definition startup :: "platform \<Rightarrow> response \<Rightarrow> page \<Rightarrow> page" where
  "startup pf resp st =
     (case init pf resp st of
        (st', None) \<Rightarrow> st'
      | (st', Some err) \<Rightarrow> st'\<lparr>grid := ErrorCard, console := console st' @ [err]\<rparr>)"

section \<open>What the claims speak of\<close>

subsection \<open>Escaped text and generated tags\<close>

text \<open>
  The characters that \<open>esc\<close> replaces, the entities it writes for them, and the image
  of one character.
\<close>

definition special :: "char \<Rightarrow> bool" where
  "special c = (c = CHR ''&'' \<or> c = CHR ''<'' \<or> c = CHR ''>'' \<or> c = DQ)"

definition entities :: "string list" where
  "entities = [''&amp;'', ''&lt;'', ''&gt;'', ''&quot;'']"

text \<open>
  \<open>gen T s\<close>: the string \<open>s\<close> is a sequence of characters other than \<open>&\<close>, \<open><\<close>,
  \<open>>\<close> and the double quote, of the four entities, and of tags from \<open>T\<close>. With
  \<open>T = {}\<close> it is escaped text.
\<close>

inductive gen :: "string set \<Rightarrow> string \<Rightarrow> bool" for T :: "string set" where
  gen_Nil: "gen T []"
| gen_Char: "\<not> special c \<Longrightarrow> gen T s \<Longrightarrow> gen T (c # s)"
| gen_Ent: "e \<in> set entities \<Longrightarrow> gen T s \<Longrightarrow> gen T (e @ s)"
| gen_Tag: "t \<in> T \<Longrightarrow> gen T s \<Longrightarrow> gen T (t @ s)"

text \<open>
  The tags the converter writes. An opening anchor tag carries an escaped \<open>href\<close>.
\<close>

definition code_tags :: "string set" where
  "code_tags = {''<code>'', ''</code>''}"

definition anchor_tags :: "string set" where
  "anchor_tags = {anchor_open @ u @ anchor_attrs | u. gen {} u} \<union> {''</a>''}"

definition inline_tags :: "string set" where
  "inline_tags = code_tags \<union> anchor_tags"

definition block_tags :: "string set" where
  "block_tags = {''<p>'', ''</p>'', ''<h1>'', ''</h1>'', ''<h2>'', ''</h2>'', ''<h3>'', ''</h3>'',
     ''<ul>'', ''</ul>'', ''<li>'', ''</li>'', ''<blockquote>'', ''</blockquote>''}"

definition html_tags :: "string set" where
  "html_tags = block_tags \<union> inline_tags"

definition esc_char :: "char \<Rightarrow> string" where
  "esc_char c = (if c = CHR ''&'' then ''&amp;'' else if c = CHR ''<'' then ''&lt;''
                 else if c = CHR ''>'' then ''&gt;'' else if c = DQ then ''&quot;'' else [c])"

text \<open>
  How the tags of the converter start, and \<open>opens ps c s\<close>: at every place of \<open>s\<close>
  where the character \<open>c\<close> stands, one of the strings \<open>ps\<close> starts.
\<close>

definition tag_starts :: "string list" where
  "tag_starts = [''<p>'', ''</p>'', ''<h1>'', ''</h1>'', ''<h2>'', ''</h2>'', ''<h3>'', ''</h3>'',
     ''<ul>'', ''</ul>'', ''<li>'', ''</li>'', ''<blockquote>'', ''</blockquote>'',
     ''<code>'', ''</code>'', anchor_open, ''</a>'']"

definition opens :: "string list \<Rightarrow> char \<Rightarrow> string \<Rightarrow> bool" where
  "opens ps c s =
     list_all (\<lambda>i. s ! i = c \<longrightarrow> list_ex (\<lambda>p. prefix p (drop i s)) ps) [0..<length s]"

text \<open>
  A delimiter of a tag set: a character that occurs in no entity and in no tag of the set.
\<close>

definition delim :: "string set \<Rightarrow> char \<Rightarrow> bool" where
  "delim T c = (\<not> special c \<and> c \<notin> set ''amp;ltgquo'' \<and> (\<forall>t \<in> T. c \<notin> set t))"

subsection \<open>Links\<close>

text \<open>
  The five starts of a url that the claim allows, and the tags of the converter with the
  anchors restricted to them: an opening anchor tag carries the escaped form of a
  trimmed url that starts with one of the five.
\<close>

definition safe_href :: "string \<Rightarrow> bool" where
  "safe_href h = (prefix ''http://'' h \<or> prefix ''https://'' h \<or> prefix ''/'' h
                  \<or> prefix ''./'' h \<or> prefix ''../'' h)"

definition safe_anchor_tags :: "string set" where
  "safe_anchor_tags =
     {anchor_open @ esc (trim u) @ anchor_attrs | u. safe_href (trim u)} \<union> {''</a>''}"

definition safe_inline_tags :: "string set" where
  "safe_inline_tags = code_tags \<union> safe_anchor_tags"

definition safe_html_tags :: "string set" where
  "safe_html_tags = block_tags \<union> safe_inline_tags"

text \<open>
  \<open>hrefs s\<close>: for every place of \<open>s\<close> where an opening anchor tag starts, the value of
  its \<open>href\<close> attribute as it is written in \<open>s\<close>, up to the closing double quote.
\<close>

definition hrefs :: "string \<Rightarrow> string list" where
  "hrefs s = map (\<lambda>i. takeWhile (\<lambda>c. c \<noteq> DQ) (drop (i + length anchor_open) s))
               (filter (\<lambda>i. prefix anchor_open (drop i s)) [0..<length s])"

text \<open>
  \<open>no_link_starts p s\<close>: in the text \<open>p\<close>, followed by \<open>s\<close>, the link pattern matches at
  no opening bracket of \<open>p\<close>. A text without an opening bracket is the simplest case.
\<close>

definition no_link_starts :: "string \<Rightarrow> string \<Rightarrow> bool" where
  "no_link_starts p s =
     list_all (\<lambda>i. p ! i = CHR ''['' \<longrightarrow> match_link (drop (Suc i) (p @ s)) = None) [0..<length p]"

text \<open>
  A source that is one paragraph line: no line break, no white space at either end, and
  none of the characters that start a heading, a quote or a list item in front.
\<close>

definition plain_line :: "string \<Rightarrow> bool" where
  "plain_line l = (l \<noteq> [] \<and> LF \<notin> set l \<and> CR \<notin> set l \<and> \<not> is_ws (hd l) \<and> \<not> is_ws (last l)
                   \<and> hd l \<notin> set ''#>-*'')"

subsection \<open>Lists\<close>

text \<open>
  \<open>ul_scan\<close> reads the lines that \<open>mdToHtml\<close> pushed and keeps whether a list is open:
  \<open><ul>\<close> may come only while none is open, \<open></ul>\<close> and \<open><li>\<close> only while one is,
  every other line only while none is. \<open>None\<close> is a violation.
\<close>

definition ul_step :: "string \<Rightarrow> bool option \<Rightarrow> bool option" where
  "ul_step x d =
     (case d of
        None \<Rightarrow> None
      | Some inside \<Rightarrow>
          if x = ''<ul>'' then (if inside then None else Some True)
          else if x = ''</ul>'' then (if inside then Some False else None)
          else if prefix ''<li>'' x then (if inside then Some True else None)
          else (if inside then None else Some False))"

definition ul_scan :: "string list \<Rightarrow> bool option" where
  "ul_scan xs = fold ul_step xs (Some False)"

text \<open>
  The block elements, and a pushed line that is one: an opening tag, content that
  holds inline tags only (code and a), the closing tag.
\<close>

definition block_pairs :: "(string \<times> string) list" where
  "block_pairs = [(''<p>'', ''</p>''), (''<h1>'', ''</h1>''), (''<h2>'', ''</h2>''),
     (''<h3>'', ''</h3>''), (''<li>'', ''</li>''), (''<blockquote>'', ''</blockquote>'')]"

definition block_entry :: "string \<Rightarrow> bool" where
  "block_entry x = (\<exists>a b c. (a, b) \<in> set block_pairs \<and> x = a @ c @ b \<and> gen inline_tags c)"

definition out_entry :: "string \<Rightarrow> bool" where
  "out_entry x = (x = ''<ul>'' \<or> x = ''</ul>'' \<or> block_entry x)"

text \<open>
  A pushed line in which no list starts or ends: it is \<open><ul>\<close> or \<open></ul>\<close> itself, or
  at every \<open><\<close> in it one of the other tags of the converter starts.
\<close>

definition entry_tag_starts :: "string list" where
  "entry_tag_starts = [''<p>'', ''</p>'', ''<h1>'', ''</h1>'', ''<h2>'', ''</h2>'', ''<h3>'', ''</h3>'',
     ''<li>'', ''</li>'', ''<blockquote>'', ''</blockquote>'',
     ''<code>'', ''</code>'', anchor_open, ''</a>'']"

definition flat_entry :: "string \<Rightarrow> bool" where
  "flat_entry x = (x = ''<ul>'' \<or> x = ''</ul>'' \<or> opens entry_tag_starts (CHR ''<'') x)"

text \<open>
  A list line as the converter reads it: the text of the item, if the line (its trailing
  white space removed) matches the list pattern.
\<close>

definition list_item :: "string \<Rightarrow> string option" where
  "list_item raw = match_li (trimEnd raw)"

definition li_html :: "string \<Rightarrow> string" where
  "li_html t = ''<li>'' @ inline t @ ''</li>''"

text \<open>A list line in the words of the specification: it begins with \<open>- \<close> or \<open>* \<close>.\<close>

definition spec_list_line :: "string \<Rightarrow> bool" where
  "spec_list_line raw = (prefix ''- '' raw \<or> prefix ''* '' raw)"

text \<open>The opening of a list before an item, as the list branch of the loop does it.\<close>

abbreviation openList :: "md_state \<Rightarrow> md_state" where
  "openList st \<equiv> (if \<not> inList st then (push ''<ul>'' st)\<lparr>inList := True\<rparr> else st)"

definition other_pairs :: "(string \<times> string) list" where
  "other_pairs = [(''<p>'', ''</p>''), (''<h1>'', ''</h1>''), (''<h2>'', ''</h2>''),
     (''<h3>'', ''</h3>''), (''<blockquote>'', ''</blockquote>'')]"

subsection \<open>The filtered view, the loaded array, the feed\<close>

text \<open>
  The array that \<open>applyFilters\<close> builds with \<open>all.filter\<close> and hands to \<open>render\<close>: it
  is the one new array of the call.
\<close>

definition filtered_view :: "platform \<Rightarrow> page \<Rightarrow> project list" where
  "filtered_view pf st = heap (applyFilters pf st) ! length (heap st)"

text \<open>The page when the script starts: \<open>all\<close> refers to an empty array.\<close>

definition fresh :: "page \<Rightarrow> bool" where
  "fresh st = (all st < length (heap st) \<and> heap st ! all st = [])"

text \<open>The array that \<open>all\<close> refers to once the script has run.\<close>

definition loaded :: "platform \<Rightarrow> response \<Rightarrow> page \<Rightarrow> project list" where
  "loaded pf resp st = (let st' = startup pf resp st in heap st' ! all st')"

text \<open>
  Descending order of timestamps as claim C3 words it: of every two adjacent ones the
  earlier is greater than or equal to the later. A comparison with \<open>NaN\<close> (\<open>None\<close>) is
  false.
\<close>

fun sorted_desc :: "int option list \<Rightarrow> bool" where
  "sorted_desc (Some a # Some b # r) = (b \<le> a \<and> sorted_desc (Some b # r))"
| "sorted_desc (a # b # r) = False"
| "sorted_desc _ = True"

text \<open>The timestamp of a project, with 0 where the date does not parse.\<close>

definition ms_or_zero :: "platform \<Rightarrow> project \<Rightarrow> int" where
  "ms_or_zero pf p = (case date_ms pf p of None \<Rightarrow> 0 | Some t \<Rightarrow> t)"

text \<open>
  The feed as a reader of XML sees it: the \<open><item>\<close> tags outside CDATA sections, and
  the text of every CDATA section, which ends at the first \<open>]]>\<close>. The state is the
  text read so far of the open section, reversed, or \<open>None\<close> outside a section.
  (Comments and processing instructions are not read; the feed template has none.)
\<close>

datatype xml_token = ItemOpen | CData string

fun xml_tokens :: "string option \<Rightarrow> string \<Rightarrow> xml_token list" where
  "xml_tokens None [] = []"
| "xml_tokens (Some acc) [] = [CData (rev acc)]"
| "xml_tokens None (c # cs) =
     (if prefix ''<![CDATA['' (c # cs) then xml_tokens (Some []) (drop 8 cs)
      else if prefix ''<item>'' (c # cs) then ItemOpen # xml_tokens None cs
      else xml_tokens None cs)"
| "xml_tokens (Some acc) (c # cs) =
     (if prefix '']]>'' (c # cs) then CData (rev acc) # xml_tokens None (drop 2 cs)
      else xml_tokens (Some (c # acc)) cs)"

definition xml_items :: "string \<Rightarrow> nat" where
  "xml_items s = length (filter (\<lambda>t. t = ItemOpen) (xml_tokens None s))"

text \<open>
  A project whose fields leave the template of its item intact: no \<open>]]>\<close> in the two
  fields that go into CDATA sections, no \<open><\<close> in the three that go into plain elements.
\<close>

definition clean_item :: "platform \<Rightarrow> string \<Rightarrow> nat \<Rightarrow> project \<Rightarrow> bool" where
  "clean_item pf base k p =
     (\<not> sublist '']]>'' (or_empty (title p)) \<and> \<not> sublist '']]>'' (or_empty (description p))
      \<and> CHR ''<'' \<notin> set (item_link base p) \<and> CHR ''<'' \<notin> set (item_pubDate pf k p)
      \<and> CHR ''<'' \<notin> set (item_guid pf k p))"

definition clean_feed :: "platform \<Rightarrow> project list \<Rightarrow> bool" where
  "clean_feed pf items =
     (let base = strip_index (location_href pf) in
      CHR ''<'' \<notin> set base
      \<and> list_all (\<lambda>(k, p). clean_item pf base k p) (enumerate 0 (slice 0 30 items)))"

definition item_tokens :: "project \<Rightarrow> xml_token list" where
  "item_tokens p = [ItemOpen, CData (or_empty (title p)), CData (or_empty (description p))]"

section \<open>Example inputs\<close>

definition example_platform :: platform where
  "example_platform =
     \<lparr>getTime = (\<lambda>s. if s = ''2020-01-01'' then Some 1577836800000
                     else if s = ''2021-01-01'' then Some 1609459200000 else None),
      toUTCString = (\<lambda>t. if t = Some 1577836800000 then ''Wed, 01 Jan 2020 00:00:00 GMT''
                         else if t = Some 1609459200000 then ''Fri, 01 Jan 2021 00:00:00 GMT''
                         else ''Invalid Date''),
      toLocaleDateString = (\<lambda>t. if t = 1577836800000 then ''Jan 01, 2020'' else ''Jan 01, 2021''),
      nowUTC = (\<lambda>k. ''Mon, 02 Nov 2026 00:00:00 GMT''),
      random = (\<lambda>k. ''0.5''),
      localeCompare = (\<lambda>a b. int (length a) - int (length b)),
      location_href = ''https://example.org/index.html''\<rparr>"

definition example_project :: "string \<Rightarrow> string option \<Rightarrow> project" where
  "example_project t d =
     \<lparr>ident = None, title = Some t, date = d, description = None, status = None,
      tags = None, links = None, images = None,
      isDraft = False, isArchived = False, isPrivate = False\<rparr>"

definition example_page :: "project list \<Rightarrow> page" where
  "example_page ps =
     \<lparr>heap = [ps], all = 0, search_value = [], tagFilter_value = [], tagFilter_options = [[]],
      showDrafts = False, showArchived = False, showPrivate = False, grid = Cards [],
      count_text = [], rssLink_href = [], listeners_wired = False, console = []\<rparr>"

section \<open>The converter writes generated tags and escaped text only\<close>

lemma gen_mono: "gen T s \<Longrightarrow> T \<subseteq> U \<Longrightarrow> gen U s"
  by (induction rule: gen.induct) (auto intro: gen.intros)

lemma gen_append: "gen T a \<Longrightarrow> gen T b \<Longrightarrow> gen T (a @ b)"
  by (induction rule: gen.induct) (auto intro: gen.intros)

lemma gen_tag: "t \<in> T \<Longrightarrow> gen T t"
  using gen_Tag [of t T "[]"] by (simp add: gen_Nil)

lemma delim_ent: "delim T c \<Longrightarrow> e \<in> set entities \<Longrightarrow> c \<notin> set e"
  by (auto simp: delim_def entities_def special_def)

lemma gen_takeWhile: "gen T s \<Longrightarrow> delim T c \<Longrightarrow> gen T (takeWhile (\<lambda>x. x \<noteq> c) s)"
proof (induction rule: gen.induct)
  case gen_Nil show ?case by (simp add: gen.gen_Nil)
next
  case (gen_Char d s) then show ?case by (auto intro: gen.intros)
next
  case (gen_Ent e s)
  then have "c \<notin> set e" by (simp add: delim_ent)
  then have "takeWhile (\<lambda>x. x \<noteq> c) (e @ s) = e @ takeWhile (\<lambda>x. x \<noteq> c) s"
    by (intro takeWhile_append2) auto
  with gen_Ent show ?case by (auto intro: gen.intros)
next
  case (gen_Tag t s)
  then have "c \<notin> set t" by (auto simp: delim_def)
  then have "takeWhile (\<lambda>x. x \<noteq> c) (t @ s) = t @ takeWhile (\<lambda>x. x \<noteq> c) s"
    by (intro takeWhile_append2) auto
  with gen_Tag show ?case by (auto intro: gen.intros)
qed

lemma gen_dropWhile: "gen T s \<Longrightarrow> delim T c \<Longrightarrow> gen T (dropWhile (\<lambda>x. x \<noteq> c) s)"
proof (induction rule: gen.induct)
  case gen_Nil show ?case by (simp add: gen.gen_Nil)
next
  case (gen_Char d s) then show ?case by (auto intro: gen.intros)
next
  case (gen_Ent e s)
  then have "c \<notin> set e" by (simp add: delim_ent)
  then have "dropWhile (\<lambda>x. x \<noteq> c) (e @ s) = dropWhile (\<lambda>x. x \<noteq> c) s"
    by (intro dropWhile_append2) auto
  with gen_Ent show ?case by simp
next
  case (gen_Tag t s)
  then have "c \<notin> set t" by (auto simp: delim_def)
  then have "dropWhile (\<lambda>x. x \<noteq> c) (t @ s) = dropWhile (\<lambda>x. x \<noteq> c) s"
    by (intro dropWhile_append2) auto
  with gen_Tag show ?case by simp
qed

lemma gen_tl_delim: "gen T s \<Longrightarrow> s = c # r \<Longrightarrow> delim T c \<Longrightarrow> gen T r"
proof (induction arbitrary: r rule: gen.induct)
  case gen_Nil then show ?case by simp
next
  case (gen_Char d s) then show ?case by simp
next
  case (gen_Ent e s)
  then have ne: "c \<notin> set e" by (simp add: delim_ent)
  show ?case
  proof (cases e)
    case Nil with gen_Ent show ?thesis by simp
  next
    case (Cons a e') with gen_Ent.prems ne show ?thesis by simp
  qed
next
  case (gen_Tag t s)
  then have ne: "c \<notin> set t" by (auto simp: delim_def)
  show ?case
  proof (cases t)
    case Nil with gen_Tag show ?thesis by simp
  next
    case (Cons a e') with gen_Tag.prems ne show ?thesis by simp
  qed
qed


lemma replace_char_append: "replace_char c r (a @ b) = replace_char c r a @ replace_char c r b"
  by (simp add: replace_char_def)

lemma esc_append: "esc (a @ b) = esc a @ esc b"
  by (simp add: esc_def replace_char_append)

lemma esc_single: "esc [c] = esc_char c"
  by (simp add: esc_def replace_char_def esc_char_def)

lemma esc_Cons: "esc (c # s) = esc_char c @ esc s"
  using esc_append [of "[c]" s] by (simp add: esc_single)

lemma esc_Nil: "esc [] = []"
  by (simp add: esc_def replace_char_def)

lemma esc_concat: "esc s = concat (map esc_char s)"
  by (induction s) (simp_all add: esc_Nil esc_Cons)

lemma gen_esc_char: "gen T s \<Longrightarrow> gen T (esc_char c @ s)"
proof (cases "special c")
  case True
  assume "gen T s"
  moreover from True have "esc_char c \<in> set entities"
    by (auto simp: special_def esc_char_def entities_def)
  ultimately show ?thesis by (rule gen_Ent [rotated])
next
  case False
  assume "gen T s"
  with False show ?thesis by (auto simp: special_def esc_char_def intro: gen_Char)
qed

lemma gen_esc: "gen T (esc s)"
  by (induction s) (simp_all add: esc_Nil esc_Cons gen_Nil gen_esc_char)

lemma replace_code_prefix:
  "CHR 0x60 \<notin> set p \<Longrightarrow> replace_code (p @ s) = p @ replace_code s"
  by (induction p) auto

lemma delim_tick: "delim {} (CHR 0x60)"
  by (simp add: delim_def special_def)

lemma gen_replace_code_aux:
  "length s \<le> n \<Longrightarrow> gen {} s \<Longrightarrow> gen code_tags (replace_code s)"
proof (induction n arbitrary: s)
  case 0 then show ?case by (simp add: gen_Nil)
next
  case (Suc n)
  from Suc.prems(2) show ?case
  proof (cases rule: gen.cases)
    case gen_Nil then show ?thesis by (simp add: gen.gen_Nil)
  next
    case (gen_Char c r)
    with Suc.prems have len: "length r \<le> n" by simp
    have rec: "gen code_tags (replace_code r)" using Suc.IH [OF len] gen_Char by simp
    show ?thesis
    proof (cases "c = CHR 0x60 \<and> takeWhile not_tick r \<noteq> [] \<and> dropWhile not_tick r \<noteq> []")
      case False
      with gen_Char rec show ?thesis by (auto intro: gen.gen_Char)
    next
      case True
      let ?body = "takeWhile not_tick r" and ?rest = "dropWhile not_tick r"
      have b: "gen code_tags ?body"
        using gen_takeWhile [OF gen_Char(3) delim_tick] by (rule gen_mono) simp
      have "gen {} ?rest" using gen_dropWhile [OF gen_Char(3) delim_tick] .
      moreover from True obtain r' where r': "?rest = CHR 0x60 # r'"
        using hd_dropWhile [of not_tick r] by (cases ?rest) auto
      ultimately have "gen {} r'" using gen_tl_delim delim_tick by blast
      moreover have "length r' \<le> n"
        using len length_dropWhile_le [of not_tick r] by (simp add: r')
      ultimately have t: "gen code_tags (replace_code r')" by (rule Suc.IH [rotated])
      have "gen code_tags (''<code>'' @ ?body @ ''</code>'' @ replace_code r')"
        by (intro gen_append b t gen_tag) (simp_all add: code_tags_def)
      with True gen_Char r' show ?thesis by simp
    qed
  next
    case (gen_Ent e r)
    then have "CHR 0x60 \<notin> set e" by (auto simp: entities_def)
    then have "replace_code s = e @ replace_code r"
      by (simp add: gen_Ent replace_code_prefix)
    moreover have "gen code_tags (replace_code r)"
      using Suc.prems gen_Ent by (intro Suc.IH) (auto simp: entities_def)
    ultimately show ?thesis using gen_Ent by (simp add: gen.gen_Ent)
  next
    case (gen_Tag t r) then show ?thesis by simp
  qed
qed

lemma gen_replace_code: "gen {} s \<Longrightarrow> gen code_tags (replace_code s)"
  using gen_replace_code_aux [of s "length s"] by simp


lemma match_link_shorter:
  assumes "match_link cs = Some (t, u, r)"
  shows "length r \<le> length cs"
proof -
  let ?r1 = "dropWhile not_rbr cs"
  let ?r2 = "drop 2 ?r1"
  from assms have r: "r = tl (dropWhile not_rpar ?r2)"
    by (simp add: match_link_def Let_def split: if_splits)
  have "length r \<le> length (dropWhile not_rpar ?r2)" by (simp add: r)
  also have "\<dots> \<le> length ?r2" by (rule length_dropWhile_le)
  also have "\<dots> \<le> length ?r1" by simp
  also have "\<dots> \<le> length cs" by (rule length_dropWhile_le)
  finally show ?thesis .
qed

lemma replace_links_prefix:
  "CHR ''['' \<notin> set p \<Longrightarrow> replace_links (p @ s) = p @ replace_links s"
  by (induction p) auto

lemma delim_code_tags:
  "c = CHR '']'' \<or> c = CHR ''['' \<or> c = CHR ''('' \<or> c = CHR '')'' \<Longrightarrow> delim code_tags c"
  by (auto simp: delim_def special_def code_tags_def)

lemma gen_match_link:
  assumes g: "gen code_tags cs" and m: "match_link cs = Some (t, u, r)"
  shows "gen code_tags r"
proof -
  let ?r1 = "dropWhile not_rbr cs"
  let ?r2 = "drop 2 ?r1"
  let ?r3 = "dropWhile not_rpar ?r2"
  from m have p: "prefix '']('' ?r1" and ne: "?r3 \<noteq> []" and r: "r = tl ?r3"
    by (simp_all add: match_link_def Let_def split: if_splits)
  from p obtain x where x: "?r1 = CHR '']'' # CHR ''('' # x"
    by (auto simp: prefix_def)
  have "gen code_tags ?r1" using g by (rule gen_dropWhile) (simp add: delim_code_tags)
  then have "gen code_tags (CHR ''('' # x)"
    using x gen_tl_delim [of code_tags ?r1 "CHR '']''"] by (simp add: delim_code_tags)
  then have "gen code_tags x"
    using gen_tl_delim [of code_tags "CHR ''('' # x" "CHR ''(''"] by (simp add: delim_code_tags)
  then have "gen code_tags ?r2" by (simp add: x)
  then have g3: "gen code_tags ?r3" by (rule gen_dropWhile) (simp add: delim_code_tags)
  from ne obtain y where y: "?r3 = CHR '')'' # y"
    using hd_dropWhile [of not_rpar ?r2] by (cases ?r3) auto
  from g3 have "gen code_tags y"
    using gen_tl_delim [of code_tags ?r3 "CHR '')''" y] y by (simp add: delim_code_tags)
  then show ?thesis by (simp add: r y)
qed

lemma gen_link_cb: "gen inline_tags (link_cb t u)"
proof (cases "safe_url (trim u)")
  case False
  then show ?thesis by (simp add: link_cb_def gen_esc)
next
  case True
  have "anchor_open @ esc (trim u) @ anchor_attrs \<in> inline_tags"
    using gen_esc [of "{}" "trim u"] by (auto simp: inline_tags_def anchor_tags_def)
  then have "gen inline_tags (anchor_open @ esc (trim u) @ anchor_attrs)" by (rule gen_tag)
  moreover have "gen inline_tags (esc t @ ''</a>'')"
    by (intro gen_append gen_esc gen_tag) (simp add: inline_tags_def anchor_tags_def)
  ultimately have "gen inline_tags ((anchor_open @ esc (trim u) @ anchor_attrs) @ esc t @ ''</a>'')"
    by (rule gen_append)
  with True show ?thesis by (simp add: link_cb_def)
qed

lemma gen_replace_links_aux:
  "length s \<le> n \<Longrightarrow> gen code_tags s \<Longrightarrow> gen inline_tags (replace_links s)"
proof (induction n arbitrary: s)
  case 0 then show ?case by (simp add: gen_Nil)
next
  case (Suc n)
  from Suc.prems(2) show ?case
  proof (cases rule: gen.cases)
    case gen_Nil then show ?thesis by (simp add: gen.gen_Nil)
  next
    case (gen_Char c r)
    with Suc.prems have len: "length r \<le> n" by simp
    have rec: "gen inline_tags (replace_links r)" using Suc.IH [OF len] gen_Char by simp
    show ?thesis
    proof (cases "c = CHR ''[''")
      case False
      with gen_Char rec show ?thesis by (auto intro: gen.gen_Char)
    next
      case True
      show ?thesis
      proof (cases "match_link r")
        case None
        with True gen_Char rec show ?thesis by (auto intro: gen.gen_Char)
      next
        case (Some m)
        obtain t u r' where m: "m = (t, u, r')" by (cases m)
        have "gen code_tags r'" using gen_match_link [of r t u r'] gen_Char(3) Some m by simp
        moreover have "length r' \<le> n"
          using match_link_shorter [of r t u r'] Some m len by simp
        ultimately have "gen inline_tags (replace_links r')" by (rule Suc.IH [rotated])
        then have "gen inline_tags (link_cb t u @ replace_links r')"
          by (intro gen_append gen_link_cb)
        with True gen_Char Some m show ?thesis by simp
      qed
    qed
  next
    case (gen_Ent e r)
    then have "CHR ''['' \<notin> set e" by (auto simp: entities_def)
    then have "replace_links s = e @ replace_links r"
      by (simp add: gen_Ent replace_links_prefix)
    moreover have "gen inline_tags (replace_links r)"
      using Suc.prems gen_Ent by (intro Suc.IH) (auto simp: entities_def)
    ultimately show ?thesis using gen_Ent by (simp add: gen.gen_Ent)
  next
    case (gen_Tag t r)
    then have "CHR ''['' \<notin> set t" and "t \<noteq> []" and ti: "t \<in> inline_tags"
      by (auto simp: code_tags_def inline_tags_def)
    then have "replace_links s = t @ replace_links r"
      by (simp add: gen_Tag replace_links_prefix)
    moreover have "length r \<le> n"
      using Suc.prems gen_Tag \<open>t \<noteq> []\<close> by (cases t) simp_all
    then have "gen inline_tags (replace_links r)"
      using gen_Tag by (intro Suc.IH)
    ultimately show ?thesis using ti by (simp add: gen.gen_Tag)
  qed
qed

lemma gen_inline: "gen inline_tags (inline s)"
  using gen_replace_links_aux [of "replace_code (esc s)" "length (replace_code (esc s))"]
  by (simp add: inline_def gen_replace_code gen_esc)


lemma gen_join_nl: "list_all (gen T) xs \<Longrightarrow> gen T (join_nl xs)"
proof (induction xs rule: join_nl.induct)
  case 1 show ?case by (simp add: gen_Nil)
next
  case (2 x) then show ?case by simp
next
  case (3 x y ys)
  then have "gen T (LF # join_nl (y # ys))" by (auto intro: gen_Char simp: special_def)
  with 3 show ?case using gen_append [of T x "LF # join_nl (y # ys)"] by simp
qed

lemma gen_block:
  "a \<in> block_tags \<Longrightarrow> b \<in> block_tags \<Longrightarrow> gen html_tags (a @ inline s @ b)"
proof -
  assume a: "a \<in> block_tags" and b: "b \<in> block_tags"
  have "gen html_tags (inline s)"
    using gen_inline by (rule gen_mono) (simp add: html_tags_def)
  moreover have "gen html_tags a" and "gen html_tags b"
    using a b by (simp_all add: gen_tag html_tags_def)
  ultimately show ?thesis by (intro gen_append)
qed

lemma gen_closeList:
  "list_all (gen html_tags) (out st) \<Longrightarrow> list_all (gen html_tags) (out (closeList st))"
  by (simp add: closeList_def push_def gen_tag html_tags_def block_tags_def)

lemma gen_push:
  "list_all (gen html_tags) (out st) \<Longrightarrow> gen html_tags x \<Longrightarrow> list_all (gen html_tags) (out (push x st))"
  by (simp add: push_def)

lemma gen_md_line:
  assumes "list_all (gen html_tags) (out st)"
  shows "list_all (gen html_tags) (out (md_line raw st))"
proof -
  have c: "list_all (gen html_tags) (out (closeList st))" using assms by (rule gen_closeList)
  have u: "list_all (gen html_tags)
             (out (if \<not> inList st then (push ''<ul>'' st)\<lparr>inList := True\<rparr> else st))"
    using assms by (simp add: push_def gen_tag html_tags_def block_tags_def)
  have ul: "gen html_tags ''<ul>''"
    by (rule gen_tag) (simp add: html_tags_def block_tags_def)
  show ?thesis
    unfolding md_line_def Let_def
    by (auto split: option.splits intro!: gen_push gen_block c u assms ul
          simp: block_tags_def simp del: append_Cons append.simps)
qed

lemma gen_md_lines:
  "list_all (gen html_tags) (out st) \<Longrightarrow> list_all (gen html_tags) (out (md_lines ls st))"
  unfolding md_lines_def by (induction ls arbitrary: st) (simp_all add: gen_md_line)

lemma gen_md_out: "list_all (gen html_tags) (md_out md)"
  unfolding md_out_def by (intro gen_closeList gen_md_lines) simp

lemma gen_mdToHtml: "gen html_tags (mdToHtml md)"
  unfolding mdToHtml_def by (intro gen_join_nl gen_md_out)

lemma gen_text_special: "gen {} s \<Longrightarrow> c \<in> set s \<Longrightarrow> special c \<Longrightarrow> c = CHR ''&''"
  by (induction rule: gen.induct) (auto simp: entities_def special_def)

lemma opens_iff:
  "opens ps c s \<longleftrightarrow> (\<forall>i<length s. s ! i = c \<longrightarrow> (\<exists>p\<in>set ps. prefix p (drop i s)))"
  by (auto simp: opens_def list_all_iff list_ex_iff)

lemma opens_append: "opens ps c a \<Longrightarrow> opens ps c b \<Longrightarrow> opens ps c (a @ b)"
  unfolding opens_iff
proof (intro allI impI)
  fix i
  assume a: "\<forall>i<length a. a ! i = c \<longrightarrow> (\<exists>p\<in>set ps. prefix p (drop i a))"
    and b: "\<forall>i<length b. b ! i = c \<longrightarrow> (\<exists>p\<in>set ps. prefix p (drop i b))"
    and i: "i < length (a @ b)" and c: "(a @ b) ! i = c"
  show "\<exists>p\<in>set ps. prefix p (drop i (a @ b))"
  proof (cases "i < length a")
    case True
    with a c obtain p where "p \<in> set ps" "prefix p (drop i a)" by (auto simp: nth_append)
    then show ?thesis using True by (auto intro: prefix_prefix)
  next
    case False
    with c i have "i - length a < length b" "b ! (i - length a) = c"
      by (auto simp: nth_append)
    with b obtain p where "p \<in> set ps" "prefix p (drop (i - length a) b)" by blast
    then show ?thesis using False by auto
  qed
qed

lemma opens_absent: "c \<notin> set s \<Longrightarrow> opens ps c s"
  by (auto simp: opens_iff)

lemma opens_head:
  "p \<in> set ps \<Longrightarrow> prefix p (c # r) \<Longrightarrow> c \<notin> set r \<Longrightarrow> opens ps c (c # r)"
  unfolding opens_iff
proof (intro allI impI)
  fix i
  assume "p \<in> set ps" "prefix p (c # r)" "c \<notin> set r" "i < length (c # r)" "(c # r) ! i = c"
  then have "i = 0" by (cases i) auto
  with \<open>p \<in> set ps\<close> \<open>prefix p (c # r)\<close> show "\<exists>p\<in>set ps. prefix p (drop i (c # r))" by auto
qed

lemma opens_gen:
  assumes "gen T s" and "\<not> special c \<or> (\<forall>e\<in>set entities. opens ps c e)"
    and "\<forall>t\<in>T. opens ps c t" and "special c"
  shows "opens ps c s"
  using assms(1)
proof (induction rule: gen.induct)
  case gen_Nil
  show ?case by (simp add: opens_iff)
next
  case (gen_Char d s)
  with assms(4) have "c \<notin> set [d]" by auto
  then have "opens ps c [d]" by (rule opens_absent)
  with gen_Char.IH show ?case using opens_append [of ps c "[d]" s] by simp
next
  case (gen_Ent e s)
  with assms(2,4) show ?case by (auto intro: opens_append)
next
  case (gen_Tag t s)
  with assms(3) show ?case by (auto intro: opens_append)
qed

lemma text_no_lt: "gen {} u \<Longrightarrow> CHR ''<'' \<notin> set u"
  using gen_text_special [of u "CHR ''<''"] by (auto simp: special_def)

lemma amp_entities: "\<forall>e\<in>set entities. opens entities (CHR ''&'') e"
proof -
  have "opens entities (CHR ''&'') ''&amp;''"
    by (rule opens_head [where p = "''&amp;''"]) (simp_all add: entities_def)
  moreover have "opens entities (CHR ''&'') ''&lt;''"
    by (rule opens_head [where p = "''&lt;''"]) (simp_all add: entities_def)
  moreover have "opens entities (CHR ''&'') ''&gt;''"
    by (rule opens_head [where p = "''&gt;''"]) (simp_all add: entities_def)
  moreover have "opens entities (CHR ''&'') ''&quot;''"
    by (rule opens_head [where p = "''&quot;''"]) (simp_all add: entities_def)
  ultimately show ?thesis by (simp add: entities_def)
qed

lemma amp_text: "gen {} u \<Longrightarrow> opens entities (CHR ''&'') u"
  by (rule opens_gen [where T = "{}"]) (simp_all add: amp_entities special_def)

lemma amp_tags: "\<forall>t\<in>html_tags. opens entities (CHR ''&'') t"
proof
  fix t assume "t \<in> html_tags"
  then consider "t \<in> block_tags \<union> code_tags \<union> {''</a>''}"
    | u where "gen {} u" "t = anchor_open @ u @ anchor_attrs"
    by (auto simp: html_tags_def inline_tags_def anchor_tags_def)
  then show "opens entities (CHR ''&'') t"
  proof cases
    case 1
    then have "CHR ''&'' \<notin> set t" by (auto simp: block_tags_def code_tags_def)
    then show ?thesis by (rule opens_absent)
  next
    case (2 u)
    have "opens entities (CHR ''&'') anchor_open" "opens entities (CHR ''&'') anchor_attrs"
      by (rule opens_absent, simp add: anchor_open_def anchor_attrs_def)+
    with amp_text [OF 2(1)] show ?thesis unfolding 2(2) by (intro opens_append)
  qed
qed

lemma lt_tags: "\<forall>t\<in>html_tags. opens tag_starts (CHR ''<'') t"
proof
  fix t assume "t \<in> html_tags"
  then consider "t \<in> block_tags \<union> code_tags \<union> {''</a>''}"
    | u where "gen {} u" "t = anchor_open @ u @ anchor_attrs"
    by (auto simp: html_tags_def inline_tags_def anchor_tags_def)
  then show "opens tag_starts (CHR ''<'') t"
  proof cases
    case 1
    then have "t \<in> set tag_starts" "\<exists>r. t = CHR ''<'' # r \<and> CHR ''<'' \<notin> set r"
      by (auto simp: block_tags_def code_tags_def tag_starts_def)
    then show ?thesis by (auto intro: opens_head)
  next
    case (2 u)
    have "opens tag_starts (CHR ''<'') anchor_open"
      by (simp add: anchor_open_def, rule opens_head [where p = anchor_open])
        (simp_all add: tag_starts_def anchor_open_def)
    moreover have "opens tag_starts (CHR ''<'') anchor_attrs"
      by (rule opens_absent) (simp add: anchor_attrs_def)
    moreover have "opens tag_starts (CHR ''<'') u"
      using text_no_lt [OF 2(1)] by (rule opens_absent)
    ultimately show ?thesis unfolding 2(2) by (intro opens_append)
  qed
qed

lemma lt_html: "gen html_tags s \<Longrightarrow> opens tag_starts (CHR ''<'') s"
proof (rule opens_gen [where T = html_tags])
  show "\<not> special (CHR ''<'') \<or> (\<forall>e\<in>set entities. opens tag_starts (CHR ''<'') e)"
    by (auto simp: entities_def intro!: opens_absent)
qed (simp_all add: lt_tags special_def)

lemma amp_html: "gen html_tags s \<Longrightarrow> opens entities (CHR ''&'') s"
  by (rule opens_gen [where T = html_tags]) (simp_all add: amp_entities amp_tags special_def)

text \<open>
  Claim C1. For every input, the HTML of \<open>mdToHtml\<close> carries no raw HTML of the input:
  it is a sequence of characters other than \<open>&\<close>, \<open><\<close>, \<open>>\<close> and the double quote, of
  the entities \<open>&amp;\<close>, \<open>&lt;\<close>, \<open>&gt;\<close>, \<open>&quot;\<close>, and of the tags the converter writes
  (p, h1 to h3, ul, li, blockquote, code, and a with an escaped href). So at every \<open><\<close>
  of the output one of those tags starts, and at every \<open>&\<close> one of the four entities.
  And \<open>esc\<close>, through which every piece of input text goes, writes each of the four
  characters as its entity and keeps every other character.
\<close>

theorem mdToHtml_no_raw_html:
  "gen html_tags (mdToHtml md)
   \<and> opens tag_starts (CHR ''<'') (mdToHtml md)
   \<and> opens entities (CHR ''&'') (mdToHtml md)
   \<and> esc str = concat (map esc_char str)"
  using gen_mdToHtml [of md] esc_concat [of str] lt_html amp_html by simp

theorem mdToHtml_no_raw_html_witness:
  "mdToHtml ''<b>Tom & Jerry</b>'' = ''<p>&lt;b&gt;Tom &amp; Jerry&lt;/b&gt;</p>''
   \<and> gen html_tags (mdToHtml ''<b>Tom & Jerry</b>'')
   \<and> opens tag_starts (CHR ''<'') (mdToHtml ''<b>Tom & Jerry</b>'')
   \<and> \<not> opens tag_starts (CHR ''<'') ''<p><b>Tom & Jerry</b></p>''
   \<and> \<not> opens entities (CHR ''&'') ''<p>Tom & Jerry</p>''
   \<and> esc ''<b>'' = concat (map esc_char ''<b>'')"
proof -
  have "mdToHtml ''<b>Tom & Jerry</b>'' = ''<p>&lt;b&gt;Tom &amp; Jerry&lt;/b&gt;</p>''"
    by code_simp
  moreover have "\<not> opens tag_starts (CHR ''<'') ''<p><b>Tom & Jerry</b></p>''"
    by code_simp
  moreover have "\<not> opens entities (CHR ''&'') ''<p>Tom & Jerry</p>''"
    by code_simp
  ultimately show ?thesis
    using mdToHtml_no_raw_html [of "''<b>Tom & Jerry</b>''" "''<b>''"] by simp
qed

section \<open>Lists are flat\<close>

lemma dropWhile_snoc_keep: "\<not> P c \<Longrightarrow> dropWhile P (xs @ [c]) = dropWhile P xs @ [c]"
  by (induction xs) auto

lemma trimEnd_Cons: "\<not> is_ws c \<Longrightarrow> trimEnd (c # r) = c # trimEnd r"
  by (simp add: trimEnd_def dropWhile_snoc_keep)

lemma trimEnd_idem: "trimEnd (trimEnd s) = trimEnd s"
proof -
  have "dropWhile is_ws (dropWhile is_ws xs) = dropWhile is_ws xs" for xs
    by (induction xs) auto
  then show ?thesis by (simp add: trimEnd_def)
qed

lemma trim_Cons: "\<not> is_ws c \<Longrightarrow> trim (c # r) = c # trimEnd r"
  by (simp add: trim_def trimStart_def trimEnd_idem trimEnd_Cons)

lemma match_li_Some:
  assumes "match_li line = Some t"
  obtains c r where "line = c # r" and "c = CHR ''-'' \<or> c = CHR ''*''" and "ws_rest r = Some t"
  using assms by (auto simp: match_li_def split: list.splits if_splits)

lemma md_line_item:
  assumes "list_item raw = Some t"
  shows "md_line raw st =
           push (li_html t) (if \<not> inList st then (push ''<ul>'' st)\<lparr>inList := True\<rparr> else st)"
proof -
  from assms have m: "match_li (trimEnd raw) = Some t" by (simp add: list_item_def)
  then obtain c r where l: "trimEnd raw = c # r" and c: "c = CHR ''-'' \<or> c = CHR ''*''"
    by (rule match_li_Some)
  from c have nws: "\<not> is_ws c" by (auto simp: is_ws_def)
  have t: "trim (trimEnd raw) = c # trimEnd r" by (simp add: l trim_Cons nws)
  have h: "match_h ''###'' (trimEnd raw) = None" "match_h ''##'' (trimEnd raw) = None"
    "match_h ''#'' (trimEnd raw) = None"
    using c by (auto simp: match_h_def l)
  from c have q: "\<not> startsWith (c # trimEnd r) ''>''" by (auto simp: startsWith_def)
  show ?thesis
    unfolding md_line_def Let_def li_html_def t
    by (simp only: h q m option.case list.simps if_False)
qed

lemma md_line_cases:
  obtains (blank) "list_item raw = None" "md_line raw st = closeList st"
  | (block) a b t where "list_item raw = None" "(a, b) \<in> set other_pairs"
      "md_line raw st = push (a @ inline t @ b) (closeList st)"
  | (item) t where "list_item raw = Some t" "md_line raw st = push (li_html t) (openList st)"
proof -
  let ?l = "trimEnd raw"
  show thesis
  proof (cases "match_li ?l")
    case (Some t)
    then have "list_item raw = Some t" by (simp add: list_item_def)
    then show thesis using item md_line_item by blast
  next
    case None
    then have n: "list_item raw = None" by (simp add: list_item_def)
    show thesis
    proof (cases "trim ?l = []")
      case True
      then have "md_line raw st = closeList st" by (simp add: md_line_def Let_def)
      with n show thesis by (rule blank)
    next
      case ne: False
      show thesis
      proof (cases "startsWith (trim ?l) ''>''")
        case True
        have e: "md_line raw st =
                push (''<blockquote>'' @ inline (strip_quote (trim ?l)) @ ''</blockquote>'') (closeList st)"
          by (simp only: md_line_def Let_def ne True if_True if_False)
        show thesis by (rule block [OF n _ e]) (simp add: other_pairs_def)
      next
        case nq: False
        show thesis
        proof (cases "match_h ''###'' ?l")
          case (Some t)
          have e: "md_line raw st = push (''<h3>'' @ inline t @ ''</h3>'') (closeList st)"
            by (simp only: md_line_def Let_def ne nq Some if_False option.case)
          show thesis by (rule block [OF n _ e]) (simp add: other_pairs_def)
        next
          case n3: None
          show thesis
          proof (cases "match_h ''##'' ?l")
            case (Some t)
            have e: "md_line raw st = push (''<h2>'' @ inline t @ ''</h2>'') (closeList st)"
              by (simp only: md_line_def Let_def ne nq n3 Some if_False option.case)
            show thesis by (rule block [OF n _ e]) (simp add: other_pairs_def)
          next
            case n2: None
            show thesis
            proof (cases "match_h ''#'' ?l")
              case (Some t)
              have e: "md_line raw st = push (''<h1>'' @ inline t @ ''</h1>'') (closeList st)"
                by (simp only: md_line_def Let_def ne nq n3 n2 Some if_False option.case)
              show thesis by (rule block [OF n _ e]) (simp add: other_pairs_def)
            next
              case n1: None
              have e: "md_line raw st = push (''<p>'' @ inline ?l @ ''</p>'') (closeList st)"
                by (simp only: md_line_def Let_def ne nq n3 n2 n1 None if_False option.case)
              show thesis by (rule block [OF n _ e]) (simp add: other_pairs_def)
            qed
          qed
        qed
      qed
    qed
  qed
qed

lemma ul_scan_snoc: "ul_scan (xs @ [x]) = ul_step x (ul_scan xs)"
  by (simp add: ul_scan_def)

lemma ul_step_block:
  "a \<in> {''<p>'', ''<h1>'', ''<h2>'', ''<h3>'', ''<blockquote>''} \<Longrightarrow>
   ul_step (a @ c) (Some False) = Some False"
  by (auto simp: ul_step_def)

lemma ul_step_li: "ul_step (''<li>'' @ c) (Some True) = Some True"
  by (simp add: ul_step_def)

lemma ul_closeList:
  "ul_scan (out st) = Some (inList st) \<Longrightarrow>
   ul_scan (out (closeList st)) = Some False \<and> \<not> inList (closeList st)"
  by (simp add: closeList_def push_def ul_scan_snoc ul_step_def)

lemma ul_push_block:
  assumes "ul_scan (out st) = Some False" "\<not> inList st"
    and "a \<in> {''<p>'', ''<h1>'', ''<h2>'', ''<h3>'', ''<blockquote>''}"
  shows "ul_scan (out (push (a @ c) st)) = Some (inList (push (a @ c) st))"
  using assms ul_step_block [of a c] by (simp add: push_def ul_scan_snoc del: append.simps append_Cons)

lemma ul_md_line:
  assumes "ul_scan (out st) = Some (inList st)"
  shows "ul_scan (out (md_line raw st)) = Some (inList (md_line raw st))"
proof (cases rule: md_line_cases [of raw st])
  case blank
  then show ?thesis using ul_closeList [OF assms] by simp
next
  case (block a b t)
  from block(2) have mem: "a \<in> {''<p>'', ''<h1>'', ''<h2>'', ''<h3>'', ''<blockquote>''}"
    by (auto simp: other_pairs_def)
  from ul_closeList [OF assms]
  have c: "ul_scan (out (closeList st)) = Some False" and nc: "\<not> inList (closeList st)"
    by simp_all
  show ?thesis unfolding block(3) by (rule ul_push_block [OF c nc mem])
next
  case (item t)
  have "ul_scan (out (openList st)) = Some True" "inList (openList st)"
    using assms by (auto simp: push_def ul_scan_snoc ul_step_def)
  then show ?thesis
    using ul_step_li [of "inline t @ ''</li>''"]
    by (simp add: item(2) li_html_def push_def ul_scan_snoc del: append.simps append_Cons)
qed


lemma ul_md_lines:
  "ul_scan (out st) = Some (inList st) \<Longrightarrow>
   ul_scan (out (md_lines ls st)) = Some (inList (md_lines ls st))"
  unfolding md_lines_def by (induction ls arbitrary: st) (simp_all add: ul_md_line)

lemma ul_md_out: "ul_scan (md_out md) = Some False"
proof -
  let ?st = "md_lines (split_nl (replace_crlf md)) \<lparr>out = [], inList = False\<rparr>"
  have "ul_scan (out ?st) = Some (inList ?st)"
    by (rule ul_md_lines) (simp add: ul_scan_def)
  then show ?thesis unfolding md_out_def by (simp add: ul_closeList)
qed

lemma entry_closeList: "list_all out_entry (out st) \<Longrightarrow> list_all out_entry (out (closeList st))"
  by (simp add: closeList_def push_def out_entry_def)

lemma entry_block:
  "(a, b) \<in> set block_pairs \<Longrightarrow> out_entry (a @ inline t @ b)"
  unfolding out_entry_def block_entry_def using gen_inline by blast

lemma entry_md_line:
  assumes "list_all out_entry (out st)"
  shows "list_all out_entry (out (md_line raw st))"
proof (cases rule: md_line_cases [of raw st])
  case blank
  then show ?thesis using assms by (simp add: entry_closeList)
next
  case (block a b t)
  from block(2) have "(a, b) \<in> set block_pairs" by (auto simp: other_pairs_def block_pairs_def)
  then have "out_entry (a @ inline t @ b)" by (rule entry_block)
  then show ?thesis using entry_closeList [OF assms] by (simp add: block(3) push_def)
next
  case (item t)
  have "out_entry (li_html t)"
    unfolding li_html_def by (rule entry_block) (simp add: block_pairs_def)
  moreover have "list_all out_entry (out (openList st))"
    using assms by (simp add: push_def out_entry_def)
  ultimately show ?thesis by (simp add: item(2) push_def)
qed

lemma entry_md_lines:
  "list_all out_entry (out st) \<Longrightarrow> list_all out_entry (out (md_lines ls st))"
  unfolding md_lines_def by (induction ls arbitrary: st) (simp_all add: entry_md_line)

lemma entry_md_out: "list_all out_entry (md_out md)"
  unfolding md_out_def by (intro entry_closeList entry_md_lines) simp

lemma md_lines_items_open:
  "those (map list_item ls) = Some ts \<Longrightarrow> inList st \<Longrightarrow>
   md_lines ls st = st\<lparr>out := out st @ map li_html ts\<rparr>"
proof (induction ls arbitrary: ts st)
  case Nil
  then show ?case by (simp add: md_lines_def)
next
  case (Cons l ls)
  from Cons.prems(1) obtain t ts' where l: "list_item l = Some t"
    and r: "those (map list_item ls) = Some ts'" and ts: "ts = t # ts'"
    by (auto split: option.splits)
  have s: "md_line l st = push (li_html t) st"
    using md_line_item [OF l, of st] Cons.prems(2) by simp
  have "md_lines (l # ls) st = md_lines ls (push (li_html t) st)"
    by (simp add: md_lines_def s)
  also have "\<dots> = (push (li_html t) st)\<lparr>out := out (push (li_html t) st) @ map li_html ts'\<rparr>"
    using Cons.prems(2) by (intro Cons.IH [OF r]) (simp add: push_def)
  finally show ?case by (simp add: push_def ts)
qed

lemma md_lines_items:
  assumes "those (map list_item ls) = Some ts" and "ls \<noteq> []"
  shows "md_lines ls st =
           st\<lparr>out := out st @ (if inList st then [] else [''<ul>'']) @ map li_html ts,
              inList := True\<rparr>"
proof (cases "inList st")
  case True
  then show ?thesis using md_lines_items_open [OF assms(1) True] by simp
next
  case False
  from assms obtain l ls' where ls: "ls = l # ls'" by (cases ls) auto
  with assms(1) obtain t ts' where l: "list_item l = Some t"
    and r: "those (map list_item ls') = Some ts'" and ts: "ts = t # ts'"
    by (auto split: option.splits)
  let ?st1 = "push (li_html t) ((push ''<ul>'' st)\<lparr>inList := True\<rparr>)"
  have s: "md_line l st = ?st1"
    using md_line_item [OF l, of st] False by simp
  have "md_lines ls st = md_lines ls' ?st1" by (simp add: md_lines_def ls s)
  also have "\<dots> = ?st1\<lparr>out := out ?st1 @ map li_html ts'\<rparr>"
    by (intro md_lines_items_open [OF r]) (simp add: push_def)
  finally show ?thesis using False by (simp add: push_def ts)
qed

lemma md_line_closes:
  assumes "list_item raw = None" and "inList st"
  shows "\<not> inList (md_line raw st) \<and> prefix (out st @ [''</ul>'']) (out (md_line raw st))
         \<and> length (out (md_line raw st)) \<le> length (out st) + 2"
proof (cases rule: md_line_cases [of raw st])
  case blank
  then show ?thesis using assms(2) by (simp add: closeList_def push_def)
next
  case (block a b t)
  then show ?thesis using assms(2) by (simp add: closeList_def push_def)
next
  case (item t)
  with assms(1) show ?thesis by simp
qed

lemma lt_inline_tags: "\<forall>t\<in>inline_tags. opens entry_tag_starts (CHR ''<'') t"
proof
  fix t assume "t \<in> inline_tags"
  then consider "t \<in> code_tags \<union> {''</a>''}"
    | u where "gen {} u" "t = anchor_open @ u @ anchor_attrs"
    by (auto simp: inline_tags_def anchor_tags_def)
  then show "opens entry_tag_starts (CHR ''<'') t"
  proof cases
    case 1
    then have "t \<in> set entry_tag_starts" "\<exists>r. t = CHR ''<'' # r \<and> CHR ''<'' \<notin> set r"
      by (auto simp: code_tags_def entry_tag_starts_def)
    then show ?thesis by (auto intro: opens_head)
  next
    case (2 u)
    have "opens entry_tag_starts (CHR ''<'') anchor_open"
      by (simp add: anchor_open_def, rule opens_head [where p = anchor_open])
        (simp_all add: entry_tag_starts_def anchor_open_def)
    moreover have "opens entry_tag_starts (CHR ''<'') anchor_attrs"
      by (rule opens_absent) (simp add: anchor_attrs_def)
    moreover have "opens entry_tag_starts (CHR ''<'') u"
      using text_no_lt [OF 2(1)] by (rule opens_absent)
    ultimately show ?thesis unfolding 2(2) by (intro opens_append)
  qed
qed

lemma lt_inline: "gen inline_tags s \<Longrightarrow> opens entry_tag_starts (CHR ''<'') s"
proof (rule opens_gen [where T = inline_tags])
  show "\<not> special (CHR ''<'') \<or> (\<forall>e\<in>set entities. opens entry_tag_starts (CHR ''<'') e)"
    by (auto simp: entities_def intro!: opens_absent)
qed (simp_all add: lt_inline_tags special_def)

lemma block_pairs_open:
  "list_all (\<lambda>(a, b). opens entry_tag_starts (CHR ''<'') a \<and> opens entry_tag_starts (CHR ''<'') b)
     block_pairs"
  by code_simp

lemma flat_block_entry:
  assumes "block_entry x"
  shows "flat_entry x"
proof -
  from assms obtain a b c where p: "(a, b) \<in> set block_pairs" and x: "x = a @ c @ b"
    and g: "gen inline_tags c"
    unfolding block_entry_def by blast
  from p block_pairs_open
  have "opens entry_tag_starts (CHR ''<'') a" "opens entry_tag_starts (CHR ''<'') b"
    unfolding list_all_iff by blast+
  with lt_inline [OF g] have "opens entry_tag_starts (CHR ''<'') x"
    unfolding x by (intro opens_append)
  then show ?thesis by (simp add: flat_entry_def)
qed

lemma flat_md_out: "list_all flat_entry (md_out md)"
  unfolding list_all_iff
proof
  fix x assume "x \<in> set (md_out md)"
  with entry_md_out [of md] have "out_entry x" by (simp add: list_all_iff)
  then show "flat_entry x"
    unfolding out_entry_def using flat_block_entry [of x] by (auto simp: flat_entry_def)
qed

text \<open>
  Claim C6, amended. \<open>mdToHtml\<close> never produces nested lists. (1) In the lines it
  pushes, \<open><ul>\<close> comes only while no list is open, \<open><li>\<close> and \<open></ul>\<close> only while one
  is, every other line only while none is, and no list is open at the end. (2) Every
  pushed line other than \<open><ul>\<close> and \<open></ul>\<close> holds, wherever a \<open><\<close> stands in it, the
  start of another tag of the converter, so no \<open><ul>\<close> hides inside a line.
  (3) Consecutive list lines, which are the lines that after the removal of trailing
  white space are \<open>-\<close> or \<open>*\<close>, then white space, then a rest without line
  terminators, are pushed as \<open><li>\<close> elements behind one \<open><ul>\<close> (none if a list is open
  already), and the list stays open. (4) A line that is not a list line closes an open
  list first.
\<close>

theorem mdToHtml_lists_flat:
  "ul_scan (md_out md) = Some False
   \<and> list_all flat_entry (md_out md)
   \<and> (those (map list_item ls) = Some ts \<and> ls \<noteq> [] \<longrightarrow>
        md_lines ls st =
          st\<lparr>out := out st @ (if inList st then [] else [''<ul>'']) @ map li_html ts,
             inList := True\<rparr>)
   \<and> (list_item raw = None \<and> inList st' \<longrightarrow>
        \<not> inList (md_line raw st') \<and> prefix (out st' @ [''</ul>'']) (out (md_line raw st')))"
  using ul_md_out [of md] flat_md_out [of md] md_lines_items [of ls ts st]
    md_line_closes [of raw st']
  by blast

theorem mdToHtml_lists_flat_witness:
  "those (map list_item [''- a'', ''*  b'']) = Some [''a'', ''b'']
   \<and> md_lines [''- a'', ''*  b''] \<lparr>out = [], inList = False\<rparr>
       = \<lparr>out = [''<ul>'', ''<li>a</li>'', ''<li>b</li>''], inList = True\<rparr>
   \<and> list_item ''text'' = None
   \<and> \<not> inList (md_line ''text'' \<lparr>out = [''<ul>''], inList = True\<rparr>)
   \<and> prefix [''<ul>'', ''</ul>''] (out (md_line ''text'' \<lparr>out = [''<ul>''], inList = True\<rparr>))
   \<and> md_out ''- a\<newline>*  b\<newline>\<newline>text''
       = [''<ul>'', ''<li>a</li>'', ''<li>b</li>'', ''</ul>'', ''<p>text</p>'']
   \<and> ul_scan (md_out ''- a\<newline>*  b\<newline>\<newline>text'') = Some False
   \<and> list_all flat_entry (md_out ''- a\<newline>*  b\<newline>\<newline>text'')
   \<and> ul_scan [''<ul>'', ''<li>a</li>'', ''<ul>'', ''<li>b</li>'', ''</ul>'', ''</ul>''] = None
   \<and> \<not> flat_entry ''<li>a<ul><li>b</li></ul></li>''"
proof -
  have h1: "those (map list_item [''- a'', ''*  b'']) = Some [''a'', ''b'']" by code_simp
  have h2: "list_item ''text'' = None" by code_simp
  have li: "li_html ''a'' = ''<li>a</li>''" "li_html ''b'' = ''<li>b</li>''" by code_simp+
  have o: "md_out ''- a\<newline>*  b\<newline>\<newline>text''
             = [''<ul>'', ''<li>a</li>'', ''<li>b</li>'', ''</ul>'', ''<p>text</p>'']"
    by code_simp
  have n: "ul_scan [''<ul>'', ''<li>a</li>'', ''<ul>'', ''<li>b</li>'', ''</ul>'', ''</ul>''] = None"
    "\<not> flat_entry ''<li>a<ul><li>b</li></ul></li>''"
    by code_simp+
  note w = mdToHtml_lists_flat [of "''- a\<newline>*  b\<newline>\<newline>text''" "[''- a'', ''*  b'']"
        "[''a'', ''b'']" "\<lparr>out = [], inList = False\<rparr>" "''text''"
        "\<lparr>out = [''<ul>''], inList = True\<rparr>"]
  from w have a: "ul_scan (md_out ''- a\<newline>*  b\<newline>\<newline>text'') = Some False"
    and b: "list_all flat_entry (md_out ''- a\<newline>*  b\<newline>\<newline>text'')"
    by blast+
  from w h1 have c: "md_lines [''- a'', ''*  b''] \<lparr>out = [], inList = False\<rparr>
       = \<lparr>out = [''<ul>'', ''<li>a</li>'', ''<li>b</li>''], inList = True\<rparr>"
    by (simp add: li)
  from w h2 have d: "\<not> inList (md_line ''text'' \<lparr>out = [''<ul>''], inList = True\<rparr>)"
    "prefix [''<ul>'', ''</ul>''] (out (md_line ''text'' \<lparr>out = [''<ul>''], inList = True\<rparr>))"
    by simp_all
  show ?thesis using h1 h2 o n a b c d by simp
qed

text \<open>
  Claim C6 as the specification words it fails: three consecutive lines that begin
  with \<open>- \<close>, the second one an empty item, give two lists with a paragraph between.
\<close>

theorem mdToHtml_lists_counterexample:
  "list_all spec_list_line [''- a'', ''- '', ''- b'']
   \<and> mdToHtml ''- a\<newline>- \<newline>- b''
       = ''<ul>\<newline><li>a</li>\<newline></ul>\<newline><p>-</p>\<newline><ul>\<newline><li>b</li>\<newline></ul>''"
  by code_simp

section \<open>Links\<close>

lemma takeWhile_stop:
  "(\<And>x. x \<in> set t \<Longrightarrow> P x) \<Longrightarrow> \<not> P y \<Longrightarrow> takeWhile P (t @ y # r) = t"
  by (induction t) auto

lemma dropWhile_stop:
  "(\<And>x. x \<in> set t \<Longrightarrow> P x) \<Longrightarrow> \<not> P y \<Longrightarrow> dropWhile P (t @ y # r) = y # r"
  by (induction t) auto

lemma match_link_construct:
  assumes "t \<noteq> []" "CHR '']'' \<notin> set t" "u \<noteq> []" "CHR '')'' \<notin> set u"
  shows "match_link (t @ '']('' @ u @ '')'' @ rest) = Some (t, u, rest)"
proof -
  have a: "takeWhile not_rbr (t @ CHR '']'' # CHR ''('' # u @ CHR '')'' # rest) = t"
    using assms(2) by (intro takeWhile_stop) auto
  have b: "dropWhile not_rbr (t @ CHR '']'' # CHR ''('' # u @ CHR '')'' # rest)
             = CHR '']'' # CHR ''('' # u @ CHR '')'' # rest"
    using assms(2) by (intro dropWhile_stop) auto
  have c: "takeWhile not_rpar (u @ CHR '')'' # rest) = u"
    using assms(4) by (intro takeWhile_stop) auto
  have d: "dropWhile not_rpar (u @ CHR '')'' # rest) = CHR '')'' # rest"
    using assms(4) by (intro dropWhile_stop) auto
  show ?thesis using assms(1,3) by (simp add: match_link_def a b c d)
qed

lemma replace_links_construct:
  assumes "t \<noteq> []" "CHR '']'' \<notin> set t" "u \<noteq> []" "CHR '')'' \<notin> set u"
  shows "replace_links (''['' @ t @ '']('' @ u @ '')'' @ rest) = link_cb t u @ replace_links rest"
  using match_link_construct [OF assms, of rest] by simp

lemma esc_no_tag: "CHR ''<'' \<notin> set (esc t) \<and> CHR ''>'' \<notin> set (esc t) \<and> DQ \<notin> set (esc t)"
  using gen_text_special [OF gen_esc, of _ t] by (auto simp: special_def)

lemma esc_char_cases:
  "(special c \<and> esc_char c \<in> set entities) \<or> (\<not> special c \<and> esc_char c = [c])"
  by (auto simp: esc_char_def special_def entities_def)

lemma esc_delim: "delim {} x \<Longrightarrow> x \<in> set (esc s) \<Longrightarrow> x \<in> set s"
proof (induction s)
  case Nil
  then show ?case by (simp add: esc_Nil)
next
  case (Cons c s)
  show ?case
  proof (cases "x \<in> set (esc_char c)")
    case True
    with Cons.prems(1) esc_char_cases [of c] delim_ent [of "{}" x "esc_char c"]
    show ?thesis by auto
  next
    case False
    with Cons show ?thesis by (simp add: esc_Cons)
  qed
qed

lemma delim_marks: "delim {} (CHR 0x60)" "delim {} (CHR '']'')" "delim {} (CHR '')'')"
  by (simp_all add: delim_def special_def)

lemma esc_eq_Nil: "esc s = [] \<longleftrightarrow> s = []"
  by (cases s) (auto simp: esc_Nil esc_Cons esc_char_def)

lemma replace_code_no_tick: "CHR 0x60 \<notin> set s \<Longrightarrow> replace_code s = s"
  using replace_code_prefix [of s "[]"] by simp

lemma dropWhile_concat_map:
  assumes "\<And>c. P c \<Longrightarrow> f c = [c]" and "\<And>c. \<not> P c \<Longrightarrow> f c \<noteq> [] \<and> \<not> P (hd (f c))"
  shows "dropWhile P (concat (map f u)) = concat (map f (dropWhile P u))"
proof (induction u)
  case Nil
  show ?case by simp
next
  case (Cons c u)
  show ?case
  proof (cases "P c")
    case True
    with Cons assms(1) [of c] show ?thesis by simp
  next
    case False
    with assms(2) [of c] obtain d r where "f c = d # r" "\<not> P d"
      by (cases "f c") auto
    with False show ?thesis by simp
  qed
qed

lemma ws_not_special: "is_ws c \<Longrightarrow> \<not> special c"
  by (auto simp: is_ws_def special_def)

lemma trimStart_esc: "trimStart (esc u) = esc (trimStart u)"
  unfolding trimStart_def esc_concat
  by (rule dropWhile_concat_map) (auto simp: esc_char_def is_ws_def)

lemma rev_esc: "rev (esc u) = concat (map (\<lambda>c. rev (esc_char c)) (rev u))"
  by (simp add: esc_concat rev_concat rev_map comp_def)

lemma trimEnd_esc: "trimEnd (esc u) = esc (trimEnd u)"
proof -
  have "dropWhile is_ws (concat (map (\<lambda>c. rev (esc_char c)) (rev u)))
          = concat (map (\<lambda>c. rev (esc_char c)) (dropWhile is_ws (rev u)))"
    by (rule dropWhile_concat_map) (auto simp: esc_char_def is_ws_def)
  then have "dropWhile is_ws (rev (esc u)) = rev (esc (rev (dropWhile is_ws (rev u))))"
    by (simp add: rev_esc)
  then show ?thesis by (simp add: trimEnd_def)
qed

lemma trim_esc: "trim (esc u) = esc (trim u)"
  by (simp add: trim_def trimEnd_esc trimStart_esc)

lemma prefix_esc:
  "list_all (\<lambda>c. \<not> special c) p \<Longrightarrow> prefix p (esc v) \<longleftrightarrow> prefix p v"
proof (induction p arbitrary: v)
  case Nil
  show ?case by simp
next
  case (Cons c p)
  show ?case
  proof (cases v)
    case Nil
    then show ?thesis by (simp add: esc_Nil)
  next
    case (Cons d v')
    show ?thesis
    proof (cases "special d")
      case True
      with Cons.prems have "c \<noteq> d" by auto
      moreover from True have "hd (esc_char d) = CHR ''&'' \<and> esc_char d \<noteq> []"
        by (auto simp: esc_char_def special_def)
      then obtain r where "esc_char d = CHR ''&'' # r" by (cases "esc_char d") auto
      moreover from Cons.prems have "c \<noteq> CHR ''&''" by (auto simp: special_def)
      ultimately show ?thesis by (simp add: \<open>v = d # v'\<close> esc_Cons)
    next
      case False
      then have "esc_char d = [d]" using esc_char_cases [of d] by simp
      with Cons.IH [of v'] Cons.prems show ?thesis by (simp add: \<open>v = d # v'\<close> esc_Cons)
    qed
  qed
qed

lemma safe_url_esc: "safe_url (esc v) \<longleftrightarrow> safe_url v"
  by (simp add: safe_url_def startsWith_def prefix_esc special_def)

lemma inline_link:
  assumes "t \<noteq> []" "CHR '']'' \<notin> set t" "u \<noteq> []" "CHR '')'' \<notin> set u"
    and "CHR 0x60 \<notin> set t" "CHR 0x60 \<notin> set u"
  shows "inline (''['' @ t @ '']('' @ u @ '')'') =
           (if safe_url (trim u)
            then anchor_open @ esc (esc (trim u)) @ anchor_attrs @ esc (esc t) @ ''</a>''
            else esc (esc t))"
proof -
  have e: "esc (''['' @ t @ '']('' @ u @ '')'') = ''['' @ esc t @ '']('' @ esc u @ '')''"
    by (simp add: esc_append esc_Cons esc_Nil esc_char_def)
  have "CHR 0x60 \<notin> set (''['' @ esc t @ '']('' @ esc u @ '')'')"
    using assms(5,6) esc_delim [OF delim_marks(1)] by auto
  then have c: "replace_code (''['' @ esc t @ '']('' @ esc u @ '')'')
                  = ''['' @ esc t @ '']('' @ esc u @ '')''"
    by (rule replace_code_no_tick)
  have "replace_links (''['' @ esc t @ '']('' @ esc u @ '')'' @ [])
          = link_cb (esc t) (esc u) @ replace_links []"
    using assms(1-4) esc_delim [OF delim_marks(2)] esc_delim [OF delim_marks(3)]
    by (intro replace_links_construct) (auto simp: esc_eq_Nil)
  then have "inline (''['' @ t @ '']('' @ u @ '')'') = link_cb (esc t) (esc u)"
    unfolding inline_def e c by simp
  then show ?thesis by (simp add: link_cb_def trim_esc safe_url_esc)
qed

lemma safe_url_href: "safe_url v \<longleftrightarrow> safe_href v"
  by (simp add: safe_url_def safe_href_def startsWith_def)

lemma gen_link_cb_safe: "gen safe_inline_tags (link_cb t u)"
proof (cases "safe_url (trim u)")
  case False
  then show ?thesis by (simp add: link_cb_def gen_esc)
next
  case True
  then have "anchor_open @ esc (trim u) @ anchor_attrs \<in> safe_inline_tags"
    by (auto simp: safe_inline_tags_def safe_anchor_tags_def safe_url_href)
  then have "gen safe_inline_tags (anchor_open @ esc (trim u) @ anchor_attrs)" by (rule gen_tag)
  moreover have "gen safe_inline_tags (esc t @ ''</a>'')"
    by (intro gen_append gen_esc gen_tag) (simp add: safe_inline_tags_def safe_anchor_tags_def)
  ultimately have "gen safe_inline_tags ((anchor_open @ esc (trim u) @ anchor_attrs) @ esc t @ ''</a>'')"
    by (rule gen_append)
  with True show ?thesis by (simp add: link_cb_def)
qed

lemma gen_replace_links_safe:
  "length s \<le> n \<Longrightarrow> gen code_tags s \<Longrightarrow> gen safe_inline_tags (replace_links s)"
proof (induction n arbitrary: s)
  case 0 then show ?case by (simp add: gen_Nil)
next
  case (Suc n)
  from Suc.prems(2) show ?case
  proof (cases rule: gen.cases)
    case gen_Nil then show ?thesis by (simp add: gen.gen_Nil)
  next
    case (gen_Char c r)
    with Suc.prems have len: "length r \<le> n" by simp
    have rec: "gen safe_inline_tags (replace_links r)" using Suc.IH [OF len] gen_Char by simp
    show ?thesis
    proof (cases "c = CHR ''[''")
      case False
      with gen_Char rec show ?thesis by (auto intro: gen.gen_Char)
    next
      case True
      show ?thesis
      proof (cases "match_link r")
        case None
        with True gen_Char rec show ?thesis by (auto intro: gen.gen_Char)
      next
        case (Some m)
        obtain t u r' where m: "m = (t, u, r')" by (cases m)
        have "gen code_tags r'" using gen_match_link [of r t u r'] gen_Char(3) Some m by simp
        moreover have "length r' \<le> n"
          using match_link_shorter [of r t u r'] Some m len by simp
        ultimately have "gen safe_inline_tags (replace_links r')" by (rule Suc.IH [rotated])
        then have "gen safe_inline_tags (link_cb t u @ replace_links r')"
          by (intro gen_append gen_link_cb_safe)
        with True gen_Char Some m show ?thesis by simp
      qed
    qed
  next
    case (gen_Ent e r)
    then have "CHR ''['' \<notin> set e" by (auto simp: entities_def)
    then have "replace_links s = e @ replace_links r"
      by (simp add: gen_Ent replace_links_prefix)
    moreover have "gen safe_inline_tags (replace_links r)"
      using Suc.prems gen_Ent by (intro Suc.IH) (auto simp: entities_def)
    ultimately show ?thesis using gen_Ent by (simp add: gen.gen_Ent)
  next
    case (gen_Tag t r)
    then have "CHR ''['' \<notin> set t" and "t \<noteq> []" and ti: "t \<in> safe_inline_tags"
      by (auto simp: code_tags_def safe_inline_tags_def)
    then have "replace_links s = t @ replace_links r"
      by (simp add: gen_Tag replace_links_prefix)
    moreover have "length r \<le> n"
      using Suc.prems gen_Tag \<open>t \<noteq> []\<close> by (cases t) simp_all
    then have "gen safe_inline_tags (replace_links r)"
      using gen_Tag by (intro Suc.IH)
    ultimately show ?thesis using ti by (simp add: gen.gen_Tag)
  qed
qed

lemma gen_inline_safe: "gen safe_inline_tags (inline s)"
  using gen_replace_links_safe [of "replace_code (esc s)" "length (replace_code (esc s))"]
  by (simp add: inline_def gen_replace_code gen_esc)

lemma gen_block_safe:
  assumes "a \<in> block_tags" "b \<in> block_tags"
  shows "gen safe_html_tags (a @ inline s @ b)"
proof -
  have "gen safe_html_tags (inline s)"
    using gen_inline_safe by (rule gen_mono) (simp add: safe_html_tags_def)
  moreover have "gen safe_html_tags a" and "gen safe_html_tags b"
    using assms by (simp_all add: gen_tag safe_html_tags_def)
  ultimately show ?thesis by (intro gen_append)
qed

lemma gen_closeList_safe:
  "list_all (gen safe_html_tags) (out st) \<Longrightarrow> list_all (gen safe_html_tags) (out (closeList st))"
  by (simp add: closeList_def push_def gen_tag safe_html_tags_def block_tags_def)

lemma other_pairs_block: "(a, b) \<in> set other_pairs \<Longrightarrow> a \<in> block_tags \<and> b \<in> block_tags"
  by (auto simp: other_pairs_def block_tags_def)

lemma gen_md_line_safe:
  assumes "list_all (gen safe_html_tags) (out st)"
  shows "list_all (gen safe_html_tags) (out (md_line raw st))"
proof (cases rule: md_line_cases [of raw st])
  case blank
  then show ?thesis using assms by (simp add: gen_closeList_safe)
next
  case (block a b t)
  from block(2) have "gen safe_html_tags (a @ inline t @ b)"
    using other_pairs_block [of a b] by (intro gen_block_safe) simp_all
  then show ?thesis using gen_closeList_safe [OF assms] by (simp add: block(3) push_def)
next
  case (item t)
  have "gen safe_html_tags (li_html t)"
    unfolding li_html_def by (rule gen_block_safe) (simp_all add: block_tags_def)
  moreover have "gen safe_html_tags ''<ul>''"
    by (rule gen_tag) (simp add: safe_html_tags_def block_tags_def)
  then have "list_all (gen safe_html_tags) (out (openList st))"
    using assms by (simp add: push_def)
  ultimately show ?thesis by (simp add: item(2) push_def)
qed

lemma gen_md_lines_safe:
  "list_all (gen safe_html_tags) (out st) \<Longrightarrow> list_all (gen safe_html_tags) (out (md_lines ls st))"
  unfolding md_lines_def by (induction ls arbitrary: st) (simp_all add: gen_md_line_safe)

lemma gen_mdToHtml_safe: "gen safe_html_tags (mdToHtml md)"
  unfolding mdToHtml_def md_out_def
  by (intro gen_join_nl gen_closeList_safe gen_md_lines_safe) simp

lemma gen_tag_at:
  assumes "gen T s" and "\<forall>t\<in>T. t \<noteq> [] \<and> CHR ''<'' \<notin> set (tl t)"
  shows "i < length s \<Longrightarrow> s ! i = CHR ''<'' \<Longrightarrow> \<exists>t\<in>T. prefix t (drop i s)"
  using assms(1)
proof (induction arbitrary: i rule: gen.induct)
  case gen_Nil
  then show ?case by simp
next
  case (gen_Char c s)
  then show ?case by (cases i) (auto simp: special_def)
next
  case (gen_Ent e s)
  show ?case
  proof (cases "i < length e")
    case True
    with gen_Ent.prems have "CHR ''<'' \<in> set e" by (auto simp: nth_append dest: nth_mem)
    with gen_Ent.hyps(1) show ?thesis by (auto simp: entities_def)
  next
    case False
    with gen_Ent.prems gen_Ent.IH [of "i - length e"] show ?thesis
      by (auto simp: nth_append)
  qed
next
  case (gen_Tag t s)
  from assms(2) gen_Tag.hyps(1) have ne: "t \<noteq> []" and tl: "CHR ''<'' \<notin> set (tl t)" by auto
  show ?case
  proof (cases "i < length t")
    case True
    have "i = 0"
    proof (rule ccontr)
      assume "i \<noteq> 0"
      then obtain j where j: "i = Suc j" by (cases i) auto
      with True ne have "t ! i = tl t ! j" and jl: "j < length (tl t)" by (cases t; simp)+
      with gen_Tag.prems True have "tl t ! j = CHR ''<''" by (simp add: nth_append)
      with nth_mem [OF jl] tl show False by simp
    qed
    moreover have "prefix t (t @ s)" by simp
    ultimately show ?thesis using gen_Tag.hyps(1) by (intro bexI [of _ t]) simp_all
  next
    case False
    with gen_Tag.prems gen_Tag.IH [of "i - length t"] show ?thesis
      by (auto simp: nth_append)
  qed
qed

lemma safe_tags_shape: "\<forall>t\<in>safe_html_tags. t \<noteq> [] \<and> CHR ''<'' \<notin> set (tl t)"
proof
  fix t assume "t \<in> safe_html_tags"
  then consider "t \<in> block_tags \<union> code_tags \<union> {''</a>''}"
    | u where "t = anchor_open @ esc (trim u) @ anchor_attrs"
    by (auto simp: safe_html_tags_def safe_inline_tags_def safe_anchor_tags_def)
  then show "t \<noteq> [] \<and> CHR ''<'' \<notin> set (tl t)"
  proof cases
    case 1
    then show ?thesis by (auto simp: block_tags_def code_tags_def)
  next
    case 2
    then show ?thesis using esc_no_tag [of "trim u"]
      by (simp add: anchor_open_def anchor_attrs_def)
  qed
qed

lemma fixed_tag_not_anchor:
  "t \<in> block_tags \<union> code_tags \<union> {''</a>''} \<Longrightarrow> \<not> prefix t (anchor_open @ r)"
  by (auto simp: block_tags_def code_tags_def anchor_open_def)

lemma hrefs_safe:
  assumes "gen safe_html_tags s"
  shows "list_all safe_href (hrefs s)"
  unfolding hrefs_def list_all_iff
proof
  fix h
  assume "h \<in> set (map (\<lambda>i. takeWhile (\<lambda>c. c \<noteq> DQ) (drop (i + length anchor_open) s))
                      (filter (\<lambda>i. prefix anchor_open (drop i s)) [0..<length s]))"
  then obtain i where i: "i < length s" and p: "prefix anchor_open (drop i s)"
    and h: "h = takeWhile (\<lambda>c. c \<noteq> DQ) (drop (i + length anchor_open) s)"
    by auto
  from p obtain r where r: "drop i s = anchor_open @ r" by (auto simp: prefix_def)
  then have "hd (drop i s) = CHR ''<''" by (simp add: anchor_open_def)
  with i have "s ! i = CHR ''<''" by (simp add: hd_drop_conv_nth)
  with gen_tag_at [OF assms safe_tags_shape i]
  obtain t where t: "t \<in> safe_html_tags" and pt: "prefix t (anchor_open @ r)"
    by (auto simp: r)
  from t consider "t \<in> block_tags \<union> code_tags \<union> {''</a>''}"
    | u where "t = anchor_open @ esc (trim u) @ anchor_attrs" "safe_href (trim u)"
    by (auto simp: safe_html_tags_def safe_inline_tags_def safe_anchor_tags_def)
  then show "safe_href h"
  proof cases
    case 1
    with pt fixed_tag_not_anchor show ?thesis by blast
  next
    case 2
    with pt obtain r' where r': "r = esc (trim u) @ anchor_attrs @ r'"
      by (auto simp: prefix_def)
    have "drop (i + length anchor_open) s = drop (length anchor_open) (drop i s)"
      by (simp add: add.commute)
    then have d: "drop (i + length anchor_open) s = esc (trim u) @ DQ # tl anchor_attrs @ r'"
      by (simp add: r r' anchor_attrs_def)
    have "h = esc (trim u)"
      unfolding h d using esc_no_tag [of "trim u"] by (intro takeWhile_stop) auto
    moreover have "safe_href (esc (trim u)) \<longleftrightarrow> safe_href (trim u)"
      by (simp add: safe_href_def prefix_esc special_def)
    ultimately show ?thesis using 2(2) by simp
  qed
qed

lemma no_link_starts_iff:
  "no_link_starts p s \<longleftrightarrow>
     (\<forall>i<length p. p ! i = CHR ''['' \<longrightarrow> match_link (drop (Suc i) (p @ s)) = None)"
  by (auto simp: no_link_starts_def list_all_iff)

lemma no_link_starts_Cons:
  "no_link_starts (c # p) s \<longleftrightarrow>
     (c = CHR ''['' \<longrightarrow> match_link (p @ s) = None) \<and> no_link_starts p s"
  unfolding no_link_starts_iff
proof (intro iffI conjI allI impI)
  fix i
  assume a: "\<forall>i<length (c # p). (c # p) ! i = CHR ''['' \<longrightarrow> match_link (drop (Suc i) ((c # p) @ s)) = None"
    and "i < length p" "p ! i = CHR ''[''"
  then show "match_link (drop (Suc i) (p @ s)) = None" using a [rule_format, of "Suc i"] by simp
next
  assume a: "\<forall>i<length (c # p). (c # p) ! i = CHR ''['' \<longrightarrow> match_link (drop (Suc i) ((c # p) @ s)) = None"
    and "c = CHR ''[''"
  then show "match_link (p @ s) = None" using a [rule_format, of 0] by simp
next
  fix i
  assume a: "(c = CHR ''['' \<longrightarrow> match_link (p @ s) = None) \<and>
             (\<forall>i<length p. p ! i = CHR ''['' \<longrightarrow> match_link (drop (Suc i) (p @ s)) = None)"
    and "i < length (c # p)" "(c # p) ! i = CHR ''[''"
  then show "match_link (drop (Suc i) ((c # p) @ s)) = None" by (cases i) auto
qed

lemma replace_links_inert:
  "no_link_starts p s \<Longrightarrow> replace_links (p @ s) = p @ replace_links s"
  by (induction p) (auto simp: no_link_starts_Cons)

lemma no_link_starts_free: "CHR ''['' \<notin> set p \<Longrightarrow> no_link_starts p s"
  unfolding no_link_starts_iff using nth_mem [of _ p] by metis

lemma replace_links_at:
  assumes "t \<noteq> []" "CHR '']'' \<notin> set t" "u \<noteq> []" "CHR '')'' \<notin> set u"
    and "no_link_starts p (''['' @ t @ '']('' @ u @ '')'' @ rest)"
  shows "replace_links (p @ ''['' @ t @ '']('' @ u @ '')'' @ rest) = p @ link_cb t u @ replace_links rest"
  using replace_links_inert [OF assms(5)] replace_links_construct [OF assms(1-4), of rest]
  by (simp del: append.simps append_Cons)

lemma inline_at:
  assumes "t \<noteq> []" "CHR '']'' \<notin> set t" "u \<noteq> []" "CHR '')'' \<notin> set u"
    and "CHR 0x60 \<notin> set t" "CHR 0x60 \<notin> set u" "CHR 0x60 \<notin> set p" "CHR ''['' \<notin> set p"
  shows "inline (p @ ''['' @ t @ '']('' @ u @ '')'' @ rest) =
           esc p @ (if safe_url (trim u)
                    then anchor_open @ esc (esc (trim u)) @ anchor_attrs @ esc (esc t) @ ''</a>''
                    else esc (esc t)) @ inline rest"
proof -
  let ?q = "esc p @ ''['' @ esc t @ '']('' @ esc u @ '')''"
  have e: "esc (p @ ''['' @ t @ '']('' @ u @ '')'' @ rest) = ?q @ esc rest"
    by (simp add: esc_append esc_Cons esc_Nil esc_char_def)
  have "CHR 0x60 \<notin> set ?q"
    using assms(5-7) esc_delim [OF delim_marks(1)] by auto
  then have c: "replace_code (?q @ esc rest) = ?q @ replace_code (esc rest)"
    by (rule replace_code_prefix)
  have d: "delim {} (CHR ''['')" by (simp add: delim_def special_def)
  have np: "no_link_starts (esc p) (''['' @ esc t @ '']('' @ esc u @ '')'' @ replace_code (esc rest))"
    using assms(8) esc_delim [OF d] by (intro no_link_starts_free) auto
  have "replace_links (esc p @ ''['' @ esc t @ '']('' @ esc u @ '')'' @ replace_code (esc rest))
          = esc p @ link_cb (esc t) (esc u) @ replace_links (replace_code (esc rest))"
    using assms(1-4) esc_delim [OF delim_marks(2)] esc_delim [OF delim_marks(3)] np
    by (intro replace_links_at) (auto simp: esc_eq_Nil)
  then have "inline (p @ ''['' @ t @ '']('' @ u @ '')'' @ rest)
               = esc p @ link_cb (esc t) (esc u) @ inline rest"
    unfolding inline_def e c by simp
  then show ?thesis by (simp add: link_cb_def trim_esc safe_url_esc)
qed

lemma replace_crlf_none: "CR \<notin> set s \<Longrightarrow> replace_crlf s = s"
  by (induction s rule: replace_crlf.induct) auto

lemma split_nl_none: "LF \<notin> set s \<Longrightarrow> split_nl s = [s]"
  by (induction s) auto

lemma trimEnd_last: "l \<noteq> [] \<Longrightarrow> \<not> is_ws (last l) \<Longrightarrow> trimEnd l = l"
proof -
  assume "l \<noteq> []" "\<not> is_ws (last l)"
  then obtain c r where "rev l = c # r" "\<not> is_ws c"
    by (cases "rev l") (auto simp: last_rev [symmetric] simp del: last_rev)
  then have "dropWhile is_ws (rev l) = rev l" by simp
  then show ?thesis by (simp add: trimEnd_def)
qed

lemma mdToHtml_plain:
  assumes "plain_line l"
  shows "mdToHtml l = ''<p>'' @ inline l @ ''</p>''"
proof -
  from assms obtain c r where l: "l = c # r" and c: "\<not> is_ws c" "c \<noteq> CHR ''#''" "c \<noteq> CHR ''>''"
    "c \<noteq> CHR ''-''" "c \<noteq> CHR ''*''"
    by (cases l) (auto simp: plain_line_def)
  from assms have te: "trimEnd l = l" by (simp add: plain_line_def trimEnd_last)
  have t: "trim l = l" using c(1) te by (simp add: trim_def trimStart_def l)
  have h: "match_h ''###'' l = None" "match_h ''##'' l = None" "match_h ''#'' l = None"
    "match_li l = None" "\<not> startsWith l ''>''" "l \<noteq> []"
    using c by (simp_all add: match_h_def match_li_def startsWith_def l)
  have m: "md_line l st = push (''<p>'' @ inline l @ ''</p>'') (closeList st)" for st
    unfolding md_line_def Let_def te t
    by (simp only: h option.case if_False)
  from assms have s: "split_nl (replace_crlf l) = [l]"
    by (simp add: plain_line_def replace_crlf_none split_nl_none)
  show ?thesis
    unfolding mdToHtml_def md_out_def s md_lines_def
    by (simp add: m closeList_def push_def)
qed

text \<open>
  Claim C8. For every source, the output of \<open>mdToHtml\<close> is made of escaped text and of the
  tags of the converter, where an opening anchor tag carries a trimmed url that starts
  with \<open>http://\<close>, \<open>https://\<close>, \<open>/\<close>, \<open>./\<close> or \<open>../\<close>; so the value of every
  \<open>href\<close> in the output starts with one of the five. Where the link pattern matches
  \<open>[t](u)\<close> (a text without \<open>]\<close>, a url without \<open>)\<close>, neither empty), at the head of
  the string or after any text \<open>p\<close> in which no link starts (a text without \<open>[\<close>, or one
  whose brackets open no match), the text before stays, the match is replaced by the
  result of the callback, and the replacement goes on behind the match. The callback
  writes an anchor exactly when the trimmed url starts with one of the five. For every
  other url it writes the escaped text alone, which holds no \<open><\<close>, no \<open>>\<close> and no
  double quote: no tag and no attribute. On the source text of a link, which \<open>esc\<close> has
  escaped once before the pattern is tried, \<open>inline\<close> so gives the text escaped a second
  time, alone or in the anchor, between the escaped text before and the conversion of
  what follows; and \<open>mdToHtml\<close> gives that in a paragraph, where the source is one
  paragraph line.
\<close>

theorem link_only_safe_urls:
  "gen safe_html_tags (mdToHtml md)
   \<and> list_all safe_href (hrefs (mdToHtml md))
   \<and> (t \<noteq> [] \<and> CHR '']'' \<notin> set t \<and> u \<noteq> [] \<and> CHR '')'' \<notin> set u \<longrightarrow>
     replace_links (''['' @ t @ '']('' @ u @ '')'' @ rest) = link_cb t u @ replace_links rest
     \<and> (CHR ''['' \<notin> set p \<longrightarrow>
          replace_links (p @ ''['' @ t @ '']('' @ u @ '')'' @ rest)
            = p @ link_cb t u @ replace_links rest)
     \<and> (no_link_starts p (''['' @ t @ '']('' @ u @ '')'' @ rest) \<longrightarrow>
          replace_links (p @ ''['' @ t @ '']('' @ u @ '')'' @ rest)
            = p @ link_cb t u @ replace_links rest)
     \<and> (safe_url (trim u) \<longleftrightarrow>
          prefix ''http://'' (trim u) \<or> prefix ''https://'' (trim u) \<or> prefix ''/'' (trim u)
          \<or> prefix ''./'' (trim u) \<or> prefix ''../'' (trim u))
     \<and> (safe_url (trim u) \<longrightarrow>
          link_cb t u = anchor_open @ esc (trim u) @ anchor_attrs @ esc t @ ''</a>'')
     \<and> (\<not> safe_url (trim u) \<longrightarrow>
          link_cb t u = esc t \<and> CHR ''<'' \<notin> set (esc t) \<and> CHR ''>'' \<notin> set (esc t)
          \<and> DQ \<notin> set (esc t))
     \<and> (CHR 0x60 \<notin> set t \<and> CHR 0x60 \<notin> set u \<longrightarrow>
          inline (''['' @ t @ '']('' @ u @ '')'') =
            (if safe_url (trim u)
             then anchor_open @ esc (esc (trim u)) @ anchor_attrs @ esc (esc t) @ ''</a>''
             else esc (esc t)))
     \<and> (CHR 0x60 \<notin> set t \<and> CHR 0x60 \<notin> set u \<and> CHR 0x60 \<notin> set p \<and> CHR ''['' \<notin> set p \<longrightarrow>
          inline (p @ ''['' @ t @ '']('' @ u @ '')'' @ rest) =
            esc p @ (if safe_url (trim u)
                     then anchor_open @ esc (esc (trim u)) @ anchor_attrs @ esc (esc t) @ ''</a>''
                     else esc (esc t)) @ inline rest
          \<and> (plain_line (p @ ''['' @ t @ '']('' @ u @ '')'' @ rest) \<longrightarrow>
               mdToHtml (p @ ''['' @ t @ '']('' @ u @ '')'' @ rest) =
                 ''<p>'' @ esc p
                   @ (if safe_url (trim u)
                      then anchor_open @ esc (esc (trim u)) @ anchor_attrs @ esc (esc t) @ ''</a>''
                      else esc (esc t))
                   @ inline rest @ ''</p>'')))"
proof -
  have g: "gen safe_html_tags (mdToHtml md)" by (rule gen_mdToHtml_safe)
  then have h: "list_all safe_href (hrefs (mdToHtml md))" by (rule hrefs_safe)
  have l: "replace_links (p @ ''['' @ t @ '']('' @ u @ '')'' @ rest)
             = p @ link_cb t u @ replace_links rest"
    if "t \<noteq> []" "CHR '']'' \<notin> set t" "u \<noteq> []" "CHR '')'' \<notin> set u"
      "no_link_starts p (''['' @ t @ '']('' @ u @ '')'' @ rest)" for p
    using that by (rule replace_links_at)
  have i: "inline (p @ ''['' @ t @ '']('' @ u @ '')'' @ rest) =
            esc p @ (if safe_url (trim u)
                     then anchor_open @ esc (esc (trim u)) @ anchor_attrs @ esc (esc t) @ ''</a>''
                     else esc (esc t)) @ inline rest"
    if "t \<noteq> []" "CHR '']'' \<notin> set t" "u \<noteq> []" "CHR '')'' \<notin> set u"
      "CHR 0x60 \<notin> set t" "CHR 0x60 \<notin> set u" "CHR 0x60 \<notin> set p" "CHR ''['' \<notin> set p"
    using that by (rule inline_at)
  have m: "mdToHtml (p @ ''['' @ t @ '']('' @ u @ '')'' @ rest) =
             ''<p>'' @ inline (p @ ''['' @ t @ '']('' @ u @ '')'' @ rest) @ ''</p>''"
    if "plain_line (p @ ''['' @ t @ '']('' @ u @ '')'' @ rest)"
    using that by (rule mdToHtml_plain)
  have c: "safe_url (trim u) \<longleftrightarrow>
          prefix ''http://'' (trim u) \<or> prefix ''https://'' (trim u) \<or> prefix ''/'' (trim u)
          \<or> prefix ''./'' (trim u) \<or> prefix ''../'' (trim u)"
    by (simp add: safe_url_def startsWith_def)
  have a: "safe_url (trim u) \<longrightarrow>
          link_cb t u = anchor_open @ esc (trim u) @ anchor_attrs @ esc t @ ''</a>''"
    by (simp add: link_cb_def)
  have b: "\<not> safe_url (trim u) \<longrightarrow>
          link_cb t u = esc t \<and> CHR ''<'' \<notin> set (esc t) \<and> CHR ''>'' \<notin> set (esc t)
          \<and> DQ \<notin> set (esc t)"
    using esc_no_tag [of t] by (simp add: link_cb_def)
  show ?thesis
    using g h l [of "[]"] l [of p] no_link_starts_free [of p] i m c a b
      replace_links_construct [of t u rest] inline_link [of t u]
    by (simp del: append.simps append_Cons replace_links.simps)
qed

theorem link_only_safe_urls_witness:
  "\<not> safe_url (trim '' javascript:alert(1'')
   \<and> replace_links (''['' @ ''<x>'' @ '']('' @ '' javascript:alert(1'' @ '')'' @ ''!'') = ''&lt;x&gt;!''
   \<and> inline (''['' @ ''<x>'' @ '']('' @ '' javascript:alert(1'' @ '')'') = ''&amp;lt;x&amp;gt;''
   \<and> mdToHtml ''[x](javascript:alert)'' = ''<p>x</p>''
   \<and> safe_url (trim '' ./a.html '')
   \<and> link_cb ''x'' '' ./a.html '' = anchor_open @ ''./a.html'' @ anchor_attrs @ ''x</a>''
   \<and> replace_links (''see '' @ ''['' @ ''x'' @ '']('' @ ''javascript:alert(1'' @ '')'' @ '')'') = ''see x)''
   \<and> no_link_starts ''[n] '' (''['' @ ''x'' @ '']('' @ ''javascript:alert(1'' @ '')'' @ '')'')
   \<and> replace_links (''[n] '' @ ''['' @ ''x'' @ '']('' @ ''javascript:alert(1'' @ '')'' @ '')'') = ''[n] x)''
   \<and> inline (''see '' @ ''['' @ ''x'' @ '']('' @ ''javascript:alert(1'' @ '')'' @ '')'') = ''see x)''
   \<and> plain_line (''see '' @ ''['' @ ''x'' @ '']('' @ ''javascript:alert(1'' @ '')'' @ '')'')
   \<and> mdToHtml (''see '' @ ''['' @ ''x'' @ '']('' @ ''javascript:alert(1'' @ '')'' @ '')'') = ''<p>see x)</p>''
   \<and> mdToHtml (''a '' @ ''['' @ ''b'' @ '']('' @ ''./c'' @ '')'' @ '' d'')
       = ''<p>a '' @ anchor_open @ ''./c'' @ anchor_attrs @ ''b</a> d</p>''
   \<and> gen safe_html_tags (mdToHtml ''- [a](./b) and [x](javascript:alert(1))'')
   \<and> hrefs (mdToHtml ''- [a](./b) and [x](javascript:alert(1))'') = [''./b'']
   \<and> safe_href ''./b''"
proof -
  have h1: "\<not> safe_url (trim '' javascript:alert(1'')" "\<not> safe_url (trim ''javascript:alert(1'')"
    by code_simp+
  have h2: "safe_url (trim '' ./a.html '')" "safe_url (trim ''./c'')" by code_simp+
  have e: "esc ''<x>'' = ''&lt;x&gt;''" "esc ''x'' = ''x''" "esc (trim '' ./a.html '') = ''./a.html''"
    "replace_links ''!'' = ''!''" "esc ''&lt;x&gt;'' = ''&amp;lt;x&amp;gt;''"
    "replace_links '')'' = '')''" "inline '')'' = '')''" "esc ''see '' = ''see ''"
    "esc ''a '' = ''a ''" "esc ''b'' = ''b''" "esc (trim ''./c'') = ''./c''" "esc ''./c'' = ''./c''"
    "inline '' d'' = '' d''"
    by code_simp+
  have n: "no_link_starts ''[n] '' (''['' @ ''x'' @ '']('' @ ''javascript:alert(1'' @ '')'' @ '')'')"
    by code_simp
  have pl: "plain_line (''see '' @ ''['' @ ''x'' @ '']('' @ ''javascript:alert(1'' @ '')'' @ '')'')"
    "plain_line (''a '' @ ''['' @ ''b'' @ '']('' @ ''./c'' @ '')'' @ '' d'')"
    by code_simp+
  have m: "mdToHtml ''[x](javascript:alert)'' = ''<p>x</p>''" by code_simp
  have hr: "hrefs (mdToHtml ''- [a](./b) and [x](javascript:alert(1))'') = [''./b'']" by code_simp
  note w = link_only_safe_urls [where t = "''<x>''" and u = "'' javascript:alert(1''" and rest = "''!''"
             and p = "[]"]
  have a: "replace_links (''['' @ ''<x>'' @ '']('' @ '' javascript:alert(1'' @ '')'' @ ''!'')
             = ''&lt;x&gt;!''"
    using w h1 by (simp add: e del: replace_links.simps)
  have i: "inline (''['' @ ''<x>'' @ '']('' @ '' javascript:alert(1'' @ '')'') = ''&amp;lt;x&amp;gt;''"
    using w h1 by (simp add: e del: replace_links.simps)
  have b: "link_cb ''x'' '' ./a.html '' = anchor_open @ ''./a.html'' @ anchor_attrs @ ''x</a>''"
    using link_only_safe_urls [where t = "''x''" and u = "'' ./a.html ''" and rest = "[]" and p = "[]"] h2
    by (simp add: e del: replace_links.simps)
  note v = link_only_safe_urls [where t = "''x''" and u = "''javascript:alert(1''" and rest = "'')''"
             and p = "''see ''"]
  have s1: "replace_links (''see '' @ ''['' @ ''x'' @ '']('' @ ''javascript:alert(1'' @ '')'' @ '')'')
              = ''see x)''"
    using v h1 by (simp add: e del: replace_links.simps)
  have s2: "inline (''see '' @ ''['' @ ''x'' @ '']('' @ ''javascript:alert(1'' @ '')'' @ '')'') = ''see x)''"
    using v h1 by (simp add: e del: replace_links.simps)
  have s3: "mdToHtml (''see '' @ ''['' @ ''x'' @ '']('' @ ''javascript:alert(1'' @ '')'' @ '')'')
              = ''<p>see x)</p>''"
    using v h1 pl(1) by (simp add: e del: replace_links.simps)
  have s4: "replace_links (''[n] '' @ ''['' @ ''x'' @ '']('' @ ''javascript:alert(1'' @ '')'' @ '')'')
              = ''[n] x)''"
    using link_only_safe_urls [where t = "''x''" and u = "''javascript:alert(1''" and rest = "'')''"
             and p = "''[n] ''"] h1 n
    by (simp add: e del: replace_links.simps)
  have s5: "mdToHtml (''a '' @ ''['' @ ''b'' @ '']('' @ ''./c'' @ '')'' @ '' d'')
              = ''<p>a '' @ anchor_open @ ''./c'' @ anchor_attrs @ ''b</a> d</p>''"
    using link_only_safe_urls [where t = "''b''" and u = "''./c''" and rest = "'' d''"
             and p = "''a ''"] h2 pl(2)
    by (simp add: e del: replace_links.simps)
  note g = link_only_safe_urls [where md = "''- [a](./b) and [x](javascript:alert(1))''"
             and t = "[]"]
  have g1: "gen safe_html_tags (mdToHtml ''- [a](./b) and [x](javascript:alert(1))'')"
    using g by blast
  have "list_all safe_href (hrefs (mdToHtml ''- [a](./b) and [x](javascript:alert(1))''))"
    using g by blast
  then have g2: "safe_href ''./b''" by (simp add: hr)
  show ?thesis using h1 h2 m a i b s1 s2 s3 s4 s5 n pl g1 hr g2 by simp
qed

section \<open>Filtering\<close>

lemma sublist_dropWhile_keep:
  assumes "sublist q l" "q \<noteq> []" "\<not> P (hd q)"
  shows "sublist q (dropWhile P l)"
proof -
  from assms(1) obtain ps ss where l: "l = ps @ q @ ss" by (auto simp: sublist_def)
  from assms(2,3) have nq: "dropWhile P (q @ ss) = q @ ss" by (cases q) auto
  show ?thesis
  proof (cases "\<forall>x\<in>set ps. P x")
    case True
    then have "dropWhile P l = q @ ss" by (simp add: l dropWhile_append2 nq)
    then show ?thesis by simp
  next
    case False
    then have "dropWhile P l = dropWhile P ps @ q @ ss"
      by (auto simp: l dropWhile_append)
    then show ?thesis by simp
  qed
qed

lemma sublist_trans: "sublist a b \<Longrightarrow> sublist b c \<Longrightarrow> sublist a c"
proof -
  assume "sublist a b" and "sublist b c"
  then obtain p1 s1 p2 s2 where "b = p1 @ a @ s1" and "c = p2 @ b @ s2"
    by (auto simp: sublist_def)
  then have "c = (p2 @ p1) @ a @ (s1 @ s2)" by simp
  then show ?thesis unfolding sublist_def by blast
qed

lemma sublist_trim_keep:
  assumes "sublist q l" "q \<noteq> []" "\<not> is_ws (hd q)" "\<not> is_ws (last q)"
  shows "sublist q (trim l)"
proof -
  have "sublist (rev q) (dropWhile is_ws (rev l))"
    using assms by (intro sublist_dropWhile_keep) (simp_all add: hd_rev)
  then have "sublist q (trimEnd l)"
    by (simp add: trimEnd_def sublist_rev_right)
  then show ?thesis unfolding trim_def trimStart_def
    using assms(2,3) by (rule sublist_dropWhile_keep)
qed

lemma sublist_trim: "sublist (trim l) l"
proof -
  have "sublist (trimEnd l) l"
    by (simp add: trimEnd_def sublist_rev_left)
  moreover have "sublist (trim l) (trimEnd l)" by (simp add: trim_def trimStart_def)
  ultimately show ?thesis by (rule sublist_trans [rotated])
qed

lemma trim_ends:
  assumes "trim s \<noteq> []"
  shows "\<not> is_ws (hd (trim s))" and "\<not> is_ws (last (trim s))"
proof -
  show "\<not> is_ws (hd (trim s))"
    using assms hd_dropWhile [of is_ws "trimEnd s"] by (simp add: trim_def trimStart_def)
  have ne: "trimEnd s \<noteq> []" using assms by (auto simp: trim_def trimStart_def)
  then have "\<not> is_ws (last (trimEnd s))"
    using hd_dropWhile [of is_ws "rev s"] by (simp add: trimEnd_def last_rev)
  moreover have "last (trim s) = last (trimEnd s)"
  proof -
    obtain zs where z: "trimEnd s = zs @ trim s"
      using suffix_dropWhile [of is_ws "trimEnd s"] by (auto simp: trim_def trimStart_def suffix_def)
    have "last (zs @ trim s) = last (trim s)" using assms by simp
    then show ?thesis by (simp add: z [symmetric])
  qed
  ultimately show "\<not> is_ws (last (trim s))" by simp
qed

lemma includes_normalize:
  assumes "normalize_str x \<noteq> []"
  shows "str_includes (normalize_str l) (normalize_str x) \<longleftrightarrow> sublist (normalize_str x) (toLowerCase l)"
proof
  assume "str_includes (normalize_str l) (normalize_str x)"
  then have "sublist (normalize_str x) (trim (toLowerCase l))"
    by (simp add: str_includes_def normalize_str_def)
  then show "sublist (normalize_str x) (toLowerCase l)"
    using sublist_trim by (rule sublist_trans)
next
  assume "sublist (normalize_str x) (toLowerCase l)"
  then have "sublist (normalize_str x) (trim (toLowerCase l))"
    using assms trim_ends [of "toLowerCase x"]
    by (intro sublist_trim_keep) (simp_all add: normalize_str_def)
  then show "str_includes (normalize_str l) (normalize_str x)"
    by (simp add: str_includes_def normalize_str_def)
qed

lemma page_keep_iff:
  "page_keep st p \<longleftrightarrow>
     (\<not> isPrivate p \<or> showPrivate st) \<and> (\<not> isDraft p \<or> showDrafts st)
     \<and> (\<not> isArchived p \<or> showArchived st)
     \<and> (normalize_str (search_value st) = []
        \<or> sublist (normalize_str (search_value st))
             (toLowerCase (join_sp [or_empty (title p), or_empty (description p),
                                    join_sp (tags_of p)])))
     \<and> (tagFilter_value st = [] \<or> tagFilter_value st \<in> set (tags_of p))"
proof (cases "normalize_str (search_value st) = []")
  case True
  then show ?thesis by (auto simp: page_keep_def keep_def Let_def)
next
  case False
  show ?thesis
    unfolding page_keep_def keep_def Let_def includes_normalize [OF False]
    using False by auto
qed

lemma applyFilters_heap:
  "heap (applyFilters pf st) = heap st @ [filter (page_keep st) (heap st ! all st)]"
  by (simp add: applyFilters_def filter_at_def alloc_def render_def Let_def)

lemma applyFilters_all: "all (applyFilters pf st) = all st"
  by (simp add: applyFilters_def filter_at_def alloc_def render_def Let_def)

lemma applyFilters_grid:
  "grid (applyFilters pf st) = Cards (map (render_card pf) (filter (page_keep st) (heap st ! all st)))"
  by (simp add: applyFilters_def filter_at_def alloc_def render_def Let_def)

lemma filtered_view_eq: "filtered_view pf st = filter (page_keep st) (heap st ! all st)"
  by (simp add: filtered_view_def applyFilters_heap)

text \<open>
  Claim C2. \<open>applyFilters\<close> renders the cards of the filtered view, and a project is in
  the filtered view if and only if it is in the loaded array and (it is not private or
  showPrivate is on) and (it is not a draft or showDrafts is on) and (it is not archived
  or showArchived is on) and (the normalized query is empty or the lowercased
  concatenation of title, description and tags contains it) and (the selected tag is
  empty or is one of its tags). The code trims the concatenation as well; for a trimmed
  query that does not change what it contains.
\<close>

theorem applyFilters_view:
  "grid (applyFilters pf st) = Cards (map (render_card pf) (filtered_view pf st))
   \<and> (p \<in> set (filtered_view pf st) \<longleftrightarrow>
        p \<in> set (heap st ! all st)
        \<and> (\<not> isPrivate p \<or> showPrivate st) \<and> (\<not> isDraft p \<or> showDrafts st)
        \<and> (\<not> isArchived p \<or> showArchived st)
        \<and> (normalize_str (search_value st) = []
           \<or> sublist (normalize_str (search_value st))
                (toLowerCase (join_sp [or_empty (title p), or_empty (description p),
                                       join_sp (tags_of p)])))
        \<and> (tagFilter_value st = [] \<or> tagFilter_value st \<in> set (tags_of p)))"
  using page_keep_iff [of st p] by (simp add: filtered_view_eq applyFilters_grid)

theorem applyFilters_view_witness:
  "example_project ''Alpha Beta'' None
     \<in> set (filtered_view example_platform
          ((example_page [example_project ''Alpha Beta'' None, example_project ''Gamma'' None])
             \<lparr>search_value := ''  BETA ''\<rparr>))
   \<and> example_project ''Gamma'' None
     \<notin> set (filtered_view example_platform
          ((example_page [example_project ''Alpha Beta'' None, example_project ''Gamma'' None])
             \<lparr>search_value := ''  BETA ''\<rparr>))"
proof -
  let ?st = "(example_page [example_project ''Alpha Beta'' None, example_project ''Gamma'' None])
               \<lparr>search_value := ''  BETA ''\<rparr>"
  have n: "normalize_str ''  BETA '' = ''beta''" by code_simp
  have a: "sublist ''beta'' (toLowerCase (join_sp [''Alpha Beta'', [], join_sp []]))" by code_simp
  have b: "\<not> sublist ''beta'' (toLowerCase (join_sp [''Gamma'', [], join_sp []]))" by code_simp
  show ?thesis
    using applyFilters_view [of example_platform ?st "example_project ''Alpha Beta'' None"]
      applyFilters_view [of example_platform ?st "example_project ''Gamma'' None"] n a b
    by (simp add: example_page_def example_project_def or_empty_def tags_of_def)
qed

text \<open>
  Claim C4. For a project that is not a draft, two runs of \<open>applyFilters\<close> on pages that
  differ in the showDrafts toggle only agree on whether the project is in the filtered
  view; likewise for archived with showArchived and private with showPrivate.
\<close>

theorem flags_independent:
  "(\<not> isDraft p \<longrightarrow>
      (p \<in> set (filtered_view pf (st\<lparr>showDrafts := x\<rparr>))
       \<longleftrightarrow> p \<in> set (filtered_view pf (st\<lparr>showDrafts := y\<rparr>))))
   \<and> (\<not> isArchived p \<longrightarrow>
      (p \<in> set (filtered_view pf (st\<lparr>showArchived := x\<rparr>))
       \<longleftrightarrow> p \<in> set (filtered_view pf (st\<lparr>showArchived := y\<rparr>))))
   \<and> (\<not> isPrivate p \<longrightarrow>
      (p \<in> set (filtered_view pf (st\<lparr>showPrivate := x\<rparr>))
       \<longleftrightarrow> p \<in> set (filtered_view pf (st\<lparr>showPrivate := y\<rparr>))))"
  by (simp add: filtered_view_eq page_keep_def keep_def)


theorem flags_independent_witness:
  "\<not> isDraft (example_project ''Alpha'' None)
   \<and> \<not> isArchived (example_project ''Alpha'' None)
   \<and> \<not> isPrivate (example_project ''Alpha'' None)
   \<and> example_project ''Alpha'' None
        \<in> set (filtered_view example_platform
              ((example_page [example_project ''Alpha'' None])\<lparr>showDrafts := False\<rparr>))
   \<and> example_project ''Alpha'' None
        \<in> set (filtered_view example_platform
              ((example_page [example_project ''Alpha'' None])\<lparr>showDrafts := True\<rparr>))
   \<and> example_project ''Alpha'' None
        \<in> set (filtered_view example_platform
              ((example_page [example_project ''Alpha'' None])\<lparr>showArchived := True\<rparr>))
   \<and> example_project ''Alpha'' None
        \<in> set (filtered_view example_platform
              ((example_page [example_project ''Alpha'' None])\<lparr>showPrivate := True\<rparr>))"
proof -
  let ?p = "example_project ''Alpha'' None"
  let ?st = "example_page [?p]"
  have d: "\<not> isDraft ?p" "\<not> isArchived ?p" "\<not> isPrivate ?p"
    by (simp_all add: example_project_def)
  have m: "?p \<in> set (filtered_view example_platform (?st\<lparr>showDrafts := False\<rparr>))"
    "?p \<in> set (filtered_view example_platform (?st\<lparr>showArchived := False\<rparr>))"
    "?p \<in> set (filtered_view example_platform (?st\<lparr>showPrivate := False\<rparr>))"
    by code_simp+
  note w = flags_independent [where p = ?p and pf = example_platform and st = ?st
      and x = True and y = False]
  from w d(1) m(1)
  have a: "?p \<in> set (filtered_view example_platform (?st\<lparr>showDrafts := True\<rparr>))" by blast
  from w d(2) m(2)
  have b: "?p \<in> set (filtered_view example_platform (?st\<lparr>showArchived := True\<rparr>))" by blast
  from w d(3) m(3)
  have c: "?p \<in> set (filtered_view example_platform (?st\<lparr>showPrivate := True\<rparr>))" by blast
  show ?thesis using d m(1) a b c by simp
qed

section \<open>Loading\<close>

lemma startup_failed:
  "resp = FetchRejected \<or> resp = BodyRejected \<Longrightarrow>
   startup pf resp st =
     st\<lparr>grid := ErrorCard,
        console := console st @ [if resp = FetchRejected then FetchError else JsonError]\<rparr>"
  by (auto simp: startup_def init_def)

text \<open>
  Claim C5. If the fetch is rejected or the body does not parse, the script takes the
  catch path: the error card is in the grid, the error is logged, and nothing else of
  the page has changed. The variable \<open>all\<close> and the heap of arrays are as before, so
  \<open>all\<close> still refers to the empty array of the start.
\<close>

theorem load_failure_leaves_all:
  "resp = FetchRejected \<or> resp = BodyRejected \<longrightarrow>
     startup pf resp st =
       st\<lparr>grid := ErrorCard,
          console := console st @ [if resp = FetchRejected then FetchError else JsonError]\<rparr>
     \<and> grid (startup pf resp st) = ErrorCard
     \<and> all (startup pf resp st) = all st
     \<and> heap (startup pf resp st) = heap st
     \<and> (fresh st \<longrightarrow> heap (startup pf resp st) ! all (startup pf resp st) = [])"
  using startup_failed [of resp pf st] by (auto simp: fresh_def)

theorem load_failure_leaves_all_witness:
  "fresh (example_page [])
   \<and> grid (startup example_platform BodyRejected (example_page [])) = ErrorCard
   \<and> heap (startup example_platform BodyRejected (example_page []))
       ! all (startup example_platform BodyRejected (example_page [])) = []
   \<and> console (startup example_platform BodyRejected (example_page [])) = [JsonError]
   \<and> grid (startup example_platform FetchRejected (example_page [])) = ErrorCard
   \<and> heap (startup example_platform FetchRejected (example_page []))
       ! all (startup example_platform FetchRejected (example_page [])) = []
   \<and> console (startup example_platform FetchRejected (example_page [])) = [FetchError]"
proof -
  have f: "fresh (example_page [])" by (simp add: fresh_def example_page_def)
  show ?thesis
    using load_failure_leaves_all [of BodyRejected example_platform "example_page []"]
      load_failure_leaves_all [of FetchRejected example_platform "example_page []"] f
    by (simp add: example_page_def)
qed

lemma render_frame: "heap (render pf a st) = heap st \<and> all (render pf a st) = all st"
  by (simp add: render_def Let_def)

lemma init_loaded_heap:
  "heap (init_loaded pf ps st) =
     heap st @ [ps, sort_js (by_date pf) ps,
                filter (page_keep (st\<lparr>tagFilter_options := tagFilter_options st @ uniqueTags pf (sort_js (by_date pf) ps), listeners_wired := True\<rparr>))
                  (sort_js (by_date pf) ps)]"
  by (simp add: init_loaded_def alloc_def slice_at_def sort_at_def Let_def applyFilters_heap
      nth_append page_keep_def)

lemma init_loaded_all: "all (init_loaded pf ps st) = Suc (length (heap st))"
  by (simp add: init_loaded_def alloc_def slice_at_def sort_at_def Let_def applyFilters_all)

text \<open>
  Claim C7. \<open>applyFilters\<close> leaves the variable \<open>all\<close> and every array that existed
  before the call as they were (the filtered view is a new array), and so does \<open>render\<close>.
  \<open>init\<close> sorts a copy: after it the parsed array is in its original order at its own
  address, and \<open>all\<close> refers to another array, which holds the sorted projects.
\<close>

theorem loaded_data_not_mutated:
  "(all st < length (heap st) \<longrightarrow>
      all (applyFilters pf st) = all st
      \<and> take (length (heap st)) (heap (applyFilters pf st)) = heap st
      \<and> heap (applyFilters pf st) ! all (applyFilters pf st) = heap st ! all st)
   \<and> heap (render pf a st) = heap st \<and> all (render pf a st) = all st
   \<and> (init pf (Body (DataProjects ps)) st = (st', err) \<longrightarrow>
        err = None
        \<and> take (length (heap st)) (heap st') = heap st
        \<and> heap st' ! length (heap st) = ps
        \<and> all st' = Suc (length (heap st))
        \<and> heap st' ! all st' = sort_js (by_date pf) ps)"
  by (auto simp: applyFilters_heap applyFilters_all nth_append render_frame init_def
      init_loaded_heap init_loaded_all)

theorem loaded_data_not_mutated_witness:
  "all (example_page [example_project ''old'' (Some ''2020-01-01''),
                      example_project ''new'' (Some ''2021-01-01'')]) < 1
   \<and> heap (applyFilters example_platform
             (example_page [example_project ''old'' (Some ''2020-01-01''),
                            example_project ''new'' (Some ''2021-01-01'')])) ! 0
       = [example_project ''old'' (Some ''2020-01-01''),
          example_project ''new'' (Some ''2021-01-01'')]
   \<and> heap (fst (init example_platform
                  (Body (DataProjects [example_project ''old'' (Some ''2020-01-01''),
                                       example_project ''new'' (Some ''2021-01-01'')]))
                  (example_page []))) ! 1
       = [example_project ''old'' (Some ''2020-01-01''),
          example_project ''new'' (Some ''2021-01-01'')]
   \<and> heap (fst (init example_platform
                  (Body (DataProjects [example_project ''old'' (Some ''2020-01-01''),
                                       example_project ''new'' (Some ''2021-01-01'')]))
                  (example_page []))) ! 2
       = [example_project ''new'' (Some ''2021-01-01''),
          example_project ''old'' (Some ''2020-01-01'')]"
proof -
  let ?ps = "[example_project ''old'' (Some ''2020-01-01''),
              example_project ''new'' (Some ''2021-01-01'')]"
  let ?r = "init example_platform (Body (DataProjects ?ps)) (example_page [])"
  have s: "sort_js (by_date example_platform) ?ps
             = [example_project ''new'' (Some ''2021-01-01''),
                example_project ''old'' (Some ''2020-01-01'')]"
    by code_simp
  have a: "all (example_page ?ps) < length (heap (example_page ?ps))"
    by (simp add: example_page_def)
  have i: "?r = (fst ?r, snd ?r)" by simp
  have l: "length (heap (example_page [])) = 1" "all (example_page ?ps) = 0"
    "heap (example_page ?ps) ! 0 = ?ps"
    by (simp_all add: example_page_def)
  have "heap (applyFilters example_platform (example_page ?ps))
          ! all (applyFilters example_platform (example_page ?ps))
        = heap (example_page ?ps) ! all (example_page ?ps)
        \<and> all (applyFilters example_platform (example_page ?ps)) = all (example_page ?ps)"
    using loaded_data_not_mutated [where pf = example_platform and st = "example_page ?ps"
        and a = 0 and ps = "?ps" and st' = "fst ?r" and err = "snd ?r"] a
    by blast
  then have x1: "heap (applyFilters example_platform (example_page ?ps))
                    ! all (applyFilters example_platform (example_page ?ps)) = ?ps"
    and x2: "all (applyFilters example_platform (example_page ?ps)) = 0"
    unfolding l by blast+
  have f: "heap (applyFilters example_platform (example_page ?ps)) ! 0 = ?ps"
    using x1 unfolding x2 .
  have "heap (fst ?r) ! length (heap (example_page [])) = ?ps
        \<and> all (fst ?r) = Suc (length (heap (example_page [])))
        \<and> heap (fst ?r) ! all (fst ?r) = sort_js (by_date example_platform) ?ps"
    using loaded_data_not_mutated [where pf = example_platform and st = "example_page []"
        and a = 0 and ps = "?ps" and st' = "fst ?r" and err = "snd ?r"] i
    by blast
  then have y1: "heap (fst ?r) ! 1 = ?ps" and y2: "all (fst ?r) = 2"
    and y3: "heap (fst ?r) ! all (fst ?r)
               = [example_project ''new'' (Some ''2021-01-01''),
                  example_project ''old'' (Some ''2020-01-01'')]"
    unfolding l s by (blast, simp, blast)
  have g: "heap (fst ?r) ! 1 = ?ps" "heap (fst ?r) ! 2
        = [example_project ''new'' (Some ''2021-01-01''),
           example_project ''old'' (Some ''2020-01-01'')]"
    using y1 y3 unfolding y2 by simp_all
  show ?thesis using f g l by simp
qed

section \<open>The order of the loaded array\<close>

lemma mset_insert_js: "mset (insert_js cmp x ys) = add_mset x (mset ys)"
  by (induction ys) auto

lemma mset_sort_js: "mset (sort_js cmp xs) = mset xs"
  unfolding sort_js_def by (induction xs) (simp_all add: mset_insert_js)

lemma sorts_after_parsed:
  "date_ms pf x \<noteq> None \<Longrightarrow> date_ms pf y \<noteq> None \<Longrightarrow>
   sorts_after (by_date pf) x y \<longleftrightarrow> ms_or_zero pf x < ms_or_zero pf y"
  by (auto simp: sorts_after_def by_date_def ms_or_zero_def)

lemma set_insert_js: "set (insert_js cmp x ys) = insert x (set ys)"
  by (induction ys) auto

lemma set_sort_js: "set (sort_js cmp xs) = set xs"
  unfolding sort_js_def by (induction xs) (simp_all add: set_insert_js)

lemma sorted_insert_js:
  assumes "date_ms pf x \<noteq> None" "\<forall>y\<in>set ys. date_ms pf y \<noteq> None"
    and "sorted_wrt (\<lambda>p q. ms_or_zero pf q \<le> ms_or_zero pf p) ys"
  shows "sorted_wrt (\<lambda>p q. ms_or_zero pf q \<le> ms_or_zero pf p) (insert_js (by_date pf) x ys)"
  using assms
proof (induction ys)
  case Nil
  then show ?case by simp
next
  case (Cons y ys)
  then show ?case
    by (auto simp: sorts_after_parsed set_insert_js)
qed

lemma sorted_sort_js:
  "\<forall>p\<in>set ps. date_ms pf p \<noteq> None \<Longrightarrow>
   sorted_wrt (\<lambda>p q. ms_or_zero pf q \<le> ms_or_zero pf p) (sort_js (by_date pf) ps)"
proof (induction ps)
  case Nil
  then show ?case by (simp add: sort_js_def)
next
  case (Cons p ps)
  then have "sorted_wrt (\<lambda>p q. ms_or_zero pf q \<le> ms_or_zero pf p)
               (insert_js (by_date pf) p (sort_js (by_date pf) ps))"
    by (intro sorted_insert_js) (simp_all add: set_sort_js)
  then show ?case by (simp add: sort_js_def)
qed

lemma sorted_desc_Some:
  "sorted_wrt (\<lambda>a b. b \<le> a) ks \<Longrightarrow> sorted_desc (map Some ks)"
proof (induction ks)
  case Nil
  then show ?case by simp
next
  case (Cons a ks)
  then show ?case by (cases ks) simp_all
qed

lemma sort_by_date_sorted:
  assumes "\<forall>p\<in>set ps. date_ms pf p \<noteq> None"
  shows "sorted_desc (map (date_ms pf) (sort_js (by_date pf) ps))"
    and "mset (sort_js (by_date pf) ps) = mset ps"
proof -
  let ?xs = "sort_js (by_date pf) ps"
  have eq: "map (date_ms pf) ?xs = map Some (map (ms_or_zero pf) ?xs)"
    using assms by (auto simp: set_sort_js ms_or_zero_def)
  have "sorted_wrt (\<lambda>a b. b \<le> a) (map (ms_or_zero pf) ?xs)"
    using sorted_sort_js [OF assms] by (simp add: sorted_wrt_map)
  then show "sorted_desc (map (date_ms pf) ?xs)"
    unfolding eq by (rule sorted_desc_Some)
  show "mset ?xs = mset ps" by (rule mset_sort_js)
qed

text \<open>
  Claim C3. After \<open>init\<close> the array of \<open>all\<close> should be in descending order of
  timestamps for every list of projects, also with dates that do not parse. Where
  every date parses, it is (lemma \<open>sort_by_date_sorted\<close>). For a date that does not
  parse the comparison function returns \<open>NaN\<close>, which the sort reads as equal, so the
  project stays where it is. The projects dated \<open>soon\<close> and 2021 stay in this order,
  and so do the projects dated 2020, \<open>soon\<close> and 2021: the loaded array is not in
  descending order, in the second case not even its two projects with dates that parse.
\<close>

theorem init_unparseable_date_unsorted:
  "map title
     (loaded example_platform
        (Body (DataProjects [example_project ''b'' (Some ''soon''),
                             example_project ''c'' (Some ''2021-01-01'')]))
        (example_page []))
   = [Some ''b'', Some ''c'']
   \<and> map (date_ms example_platform)
       (loaded example_platform
          (Body (DataProjects [example_project ''b'' (Some ''soon''),
                               example_project ''c'' (Some ''2021-01-01'')]))
          (example_page []))
     = [None, Some 1609459200000]
   \<and> \<not> sorted_desc [None, Some 1609459200000]
   \<and> map title
       (loaded example_platform
          (Body (DataProjects [example_project ''a'' (Some ''2020-01-01''),
                               example_project ''b'' (Some ''soon''),
                               example_project ''c'' (Some ''2021-01-01'')]))
          (example_page []))
     = [Some ''a'', Some ''b'', Some ''c'']
   \<and> \<not> sorted_desc [Some 1577836800000, None, Some 1609459200000]
   \<and> \<not> sorted_desc [Some 1577836800000, Some 1609459200000]"
  by code_simp

section \<open>The feed\<close>

lemma tokens_skip: "CHR ''<'' \<notin> set a \<Longrightarrow> xml_tokens None (a @ b) = xml_tokens None b"
  by (induction a) auto

lemma tokens_cdata:
  "\<not> sublist '']]>'' f \<Longrightarrow>
   xml_tokens (Some acc) (f @ '']]>'' @ b) = CData (rev acc @ f) # xml_tokens None b"
proof (induction f arbitrary: acc)
  case Nil
  then show ?case by simp
next
  case (Cons c f)
  from Cons.prems have nf: "\<not> sublist '']]>'' f" and np: "\<not> prefix '']]>'' (c # f)"
    by (auto simp: sublist_Cons_right)
  have "\<not> prefix '']]>'' (c # f @ '']]>'' @ b)"
  proof (cases f)
    case Nil then show ?thesis by simp
  next
    case (Cons d f')
    show ?thesis
    proof (cases f')
      case Nil with Cons show ?thesis by simp
    next
      case (Cons e f'')
      with \<open>f = d # f'\<close> np show ?thesis by simp
    qed
  qed
  then show ?case using Cons.IH [OF nf, of "c # acc"] by simp
qed


lemma tokens_item:
  assumes "clean_item pf base k p"
  shows "xml_tokens None (rss_item pf base k p @ rest)
           = [ItemOpen, CData (or_empty (title p)), CData (or_empty (description p))]
             @ xml_tokens None rest"
proof -
  from assms have t: "\<not> sublist '']]>'' (or_empty (title p))"
    and d: "\<not> sublist '']]>'' (or_empty (description p))"
    and l: "CHR ''<'' \<notin> set (item_link base p)"
    and u: "CHR ''<'' \<notin> set (item_pubDate pf k p)"
    and g: "CHR ''<'' \<notin> set (item_guid pf k p)"
    by (simp_all add: clean_item_def)
  show ?thesis
    unfolding rss_item_def
    using tokens_cdata [OF t, of "[]"] tokens_cdata [OF d, of "[]"]
      tokens_skip [OF l] tokens_skip [OF u] tokens_skip [OF g]
    by simp
qed


lemma tokens_head:
  "CHR ''<'' \<notin> set base \<Longrightarrow> xml_tokens None (rss_head base @ rest) = xml_tokens None rest"
  unfolding rss_head_def em_dash_def using tokens_skip [of base] by simp

lemma tokens_tail: "xml_tokens None rss_tail = []"
  by (simp add: rss_tail_def)

lemma tokens_items:
  "list_all (\<lambda>(k, p). clean_item pf base k p) kps \<Longrightarrow>
   xml_tokens None (concat (map (\<lambda>(k, p). rss_item pf base k p) kps) @ rest)
     = concat (map (\<lambda>(k, p). item_tokens p) kps) @ xml_tokens None rest"
proof (induction kps)
  case Nil
  then show ?case by simp
next
  case (Cons kp kps)
  obtain k p where kp: "kp = (k, p)" by (cases kp)
  from Cons.prems have c: "clean_item pf base k p"
    and r: "list_all (\<lambda>(k, p). clean_item pf base k p) kps"
    by (simp_all add: kp)
  have "xml_tokens None (rss_item pf base k p
          @ (concat (map (\<lambda>(k, p). rss_item pf base k p) kps) @ rest))
        = item_tokens p @ xml_tokens None (concat (map (\<lambda>(k, p). rss_item pf base k p) kps) @ rest)"
    unfolding item_tokens_def by (rule tokens_item [OF c])
  then show ?case using Cons.IH [OF r] by (simp add: kp)
qed

lemma slice_take: "slice 0 n xs = take n xs"
  by (simp add: slice_def)

lemma map_snd_enumerate: "map (\<lambda>(k, p). f p) (enumerate n xs) = map f xs"
  by (induction xs arbitrary: n) simp_all

lemma tokens_feed:
  assumes "clean_feed pf items"
  shows "xml_tokens None (makeRSS pf items) = concat (map item_tokens (take 30 items))"
proof -
  let ?base = "strip_index (location_href pf)"
  let ?kps = "enumerate 0 (take 30 items)"
  from assms have b: "CHR ''<'' \<notin> set ?base"
    and c: "list_all (\<lambda>(k, p). clean_item pf ?base k p) ?kps"
    by (simp_all add: clean_feed_def Let_def slice_take)
  have "xml_tokens None (makeRSS pf items)
          = xml_tokens None (concat (map (\<lambda>(k, p). rss_item pf ?base k p) ?kps) @ rss_tail)"
    by (simp add: makeRSS_def Let_def slice_take tokens_head [OF b])
  also have "\<dots> = concat (map (\<lambda>(k, p). item_tokens p) ?kps)"
    by (simp add: tokens_items [OF c] tokens_tail)
  finally show ?thesis by (simp add: map_snd_enumerate)
qed

lemma count_item_tokens:
  "length (filter (\<lambda>t. t = ItemOpen) (concat (map item_tokens ps))) = length ps"
  by (induction ps) (simp_all add: item_tokens_def)

lemma items_feed: "clean_feed pf items \<Longrightarrow> xml_items (makeRSS pf items) = min 30 (length items)"
  by (simp add: xml_items_def tokens_feed count_item_tokens min.commute)

lemma feed_blocks:
  "\<exists>blocks. makeRSS pf items
              = rss_head (strip_index (location_href pf)) @ concat blocks @ rss_tail
     \<and> length blocks = min 30 (length items)
     \<and> (\<forall>k < length blocks.
           blocks ! k = rss_item pf (strip_index (location_href pf)) k (items ! k))"
proof -
  let ?base = "strip_index (location_href pf)"
  let ?blocks = "map (\<lambda>(k, p). rss_item pf ?base k p) (enumerate 0 (take 30 items))"
  have "makeRSS pf items = rss_head ?base @ concat ?blocks @ rss_tail"
    by (simp add: makeRSS_def Let_def slice_take)
  moreover have "length ?blocks = min 30 (length items)" by (simp add: min.commute)
  moreover have "\<forall>k < length ?blocks. ?blocks ! k = rss_item pf ?base k (items ! k)"
    by (simp add: nth_enumerate_eq)
  ultimately show ?thesis by blast
qed

text \<open>
  Claim C9, amended. \<open>makeRSS\<close> writes, between the head and the tail of the channel,
  exactly one item block for each of the first min(30, n) projects, in the order of
  the list. Where the fields of those projects leave the template intact (no \<open>]]>\<close> in a
  title or description, no \<open><\<close> in a link, date, guid or in the base address), a reader
  of the feed finds exactly min(30, n) \<open><item>\<close> elements, at most 30, each with the
  title and the description of its project.
\<close>

theorem makeRSS_items:
  "(\<exists>blocks. makeRSS pf items
               = rss_head (strip_index (location_href pf)) @ concat blocks @ rss_tail
      \<and> length blocks = min 30 (length items)
      \<and> (\<forall>k < length blocks.
            blocks ! k = rss_item pf (strip_index (location_href pf)) k (items ! k)))
   \<and> (clean_feed pf items \<longrightarrow>
        xml_tokens None (makeRSS pf items) = concat (map item_tokens (take 30 items))
        \<and> xml_items (makeRSS pf items) = min 30 (length items)
        \<and> xml_items (makeRSS pf items) \<le> 30)"
  using feed_blocks [of pf items] tokens_feed [of pf items] items_feed [of pf items]
  by simp

theorem makeRSS_items_witness:
  "clean_feed example_platform (replicate 31 (example_project ''t'' None))
   \<and> xml_items (makeRSS example_platform (replicate 31 (example_project ''t'' None))) = 30
   \<and> clean_feed example_platform [example_project ''a'' None, example_project ''b'' None]
   \<and> xml_tokens None (makeRSS example_platform [example_project ''a'' None, example_project ''b'' None])
       = [ItemOpen, CData ''a'', CData [], ItemOpen, CData ''b'', CData []]"
proof -
  have c: "clean_feed example_platform (replicate 31 (example_project ''t'' None))"
    by code_simp
  have d: "clean_feed example_platform [example_project ''a'' None, example_project ''b'' None]"
    by code_simp
  have i: "map item_tokens [example_project ''a'' None, example_project ''b'' None]
             = [[ItemOpen, CData ''a'', CData []], [ItemOpen, CData ''b'', CData []]]"
    by code_simp
  show ?thesis
    using makeRSS_items [of example_platform "replicate 31 (example_project ''t'' None)"]
      makeRSS_items [of example_platform "[example_project ''a'' None, example_project ''b'' None]"]
      c d i
    by simp
qed

text \<open>
  Claim C9 as the specification words it fails: the feed of one project, whose title
  closes the CDATA section and opens another item, holds two \<open><item>\<close> elements.
\<close>

theorem makeRSS_items_counterexample:
  "xml_tokens None
     (makeRSS example_platform
        [(example_project '']]></title></item><item><title><![CDATA[x'' None)
            \<lparr>ident := Some ''p1''\<rparr>])
   = [ItemOpen, CData [], ItemOpen, CData ''x'', CData []]
   \<and> xml_items
     (makeRSS example_platform
        [(example_project '']]></title></item><item><title><![CDATA[x'' None)
            \<lparr>ident := Some ''p1''\<rparr>]) = 2"
  by code_simp

lemma rss_item_cdata:
  "sublist (''<title><![CDATA['' @ or_empty (title p) @ '']]></title>'') (rss_item pf base k p)
   \<and> sublist (''<description><![CDATA['' @ or_empty (description p) @ '']]></description>'')
        (rss_item pf base k p)"
proof -
  let ?t = "''<title><![CDATA['' @ or_empty (title p) @ '']]></title>''"
  let ?d = "''<description><![CDATA['' @ or_empty (description p) @ '']]></description>''"
  let ?a = "[LF] @ ''    <item>'' @ [LF] @ ''      ''"
  let ?b = "[LF] @ ''      <link>'' @ item_link base p @ ''</link>'' @ [LF] @ ''      ''"
  let ?c = "[LF] @ ''      <pubDate>'' @ item_pubDate pf k p @ ''</pubDate>'' @ [LF]
     @ ''      <guid isPermaLink='' @ [DQ] @ ''false'' @ [DQ] @ ''>'' @ item_guid pf k p
     @ ''</guid>'' @ [LF] @ ''    </item>''"
  have e1: "rss_item pf base k p = ?a @ ?t @ (?b @ ?d @ ?c)"
    by (simp add: rss_item_def)
  have e2: "rss_item pf base k p = (?a @ ?t @ ?b) @ ?d @ ?c"
    by (simp add: rss_item_def)
  have "sublist ?t (rss_item pf base k p)" by (subst e1) (rule sublist_appendI)
  moreover have "sublist ?d (rss_item pf base k p)" by (subst e2) (rule sublist_appendI)
  ultimately show ?thesis by simp
qed

lemma rss_item_in_feed:
  assumes "k < length items" "k < 30"
  shows "sublist (rss_item pf (strip_index (location_href pf)) k (items ! k)) (makeRSS pf items)"
proof -
  from feed_blocks [of pf items] obtain blocks where
    m: "makeRSS pf items = rss_head (strip_index (location_href pf)) @ concat blocks @ rss_tail"
    and l: "length blocks = min 30 (length items)"
    and n: "\<forall>k < length blocks. blocks ! k = rss_item pf (strip_index (location_href pf)) k (items ! k)"
    by blast
  from assms l have k: "k < length blocks" by simp
  then have "blocks = take k blocks @ blocks ! k # drop (Suc k) blocks"
    by (simp add: id_take_nth_drop)
  then have "concat blocks = concat (take k blocks) @ blocks ! k @ concat (drop (Suc k) blocks)"
    by (metis concat.simps(2) concat_append)
  then have "sublist (blocks ! k) (concat blocks)" by (simp add: sublist_appendI)
  moreover have "sublist (concat blocks) (makeRSS pf items)" by (simp add: m sublist_appendI)
  ultimately have "sublist (blocks ! k) (makeRSS pf items)" by (rule sublist_trans)
  with n k show ?thesis by simp
qed

text \<open>
  Claim C10. \<open>makeRSS\<close> writes the title and the description of each of the first 30
  projects between the CDATA brackets as they are. So there is a project whose
  description contains \<open>]]>\<close> and whose feed holds that description, terminator and
  all, between the brackets of the description element: the section ends early.
\<close>

theorem makeRSS_cdata_verbatim:
  "(k < length items \<and> k < 30 \<longrightarrow>
      sublist (''<title><![CDATA['' @ or_empty (title (items ! k)) @ '']]></title>'')
        (makeRSS pf items)
      \<and> sublist (''<description><![CDATA['' @ or_empty (description (items ! k))
                  @ '']]></description>'')
          (makeRSS pf items))
   \<and> (\<exists>p. sublist '']]>'' (or_empty (description p))
          \<and> sublist (''<description><![CDATA['' @ or_empty (description p) @ '']]></description>'')
               (makeRSS pf [p]))"
proof -
  have v: "sublist (''<title><![CDATA['' @ or_empty (title (items ! k)) @ '']]></title>'')
             (makeRSS pf items)
           \<and> sublist (''<description><![CDATA['' @ or_empty (description (items ! k))
                       @ '']]></description>'')
               (makeRSS pf items)"
    if "k < length items" "k < 30" for k items
    using rss_item_cdata [of "items ! k" pf "strip_index (location_href pf)" k]
      rss_item_in_feed [OF that, of pf] sublist_trans
    by blast
  let ?p = "(example_project ''t'' None)\<lparr>description := Some ''a]]>b''\<rparr>"
  have "sublist '']]>'' (or_empty (description ?p))" by code_simp
  moreover have "sublist (''<description><![CDATA['' @ or_empty (description ?p)
                   @ '']]></description>'') (makeRSS pf [?p])"
    using v [of 0 "[?p]"] by simp
  ultimately show ?thesis using v by blast
qed

theorem makeRSS_cdata_verbatim_witness:
  "sublist '']]>'' ''a]]>b''
   \<and> sublist ''<description><![CDATA[a]]>b]]></description>''
        (makeRSS example_platform
           [(example_project ''t'' None)\<lparr>description := Some ''a]]>b''\<rparr>])
   \<and> xml_tokens None
        (makeRSS example_platform
           [(example_project ''t'' None)\<lparr>description := Some ''a]]>b''\<rparr>])
       = [ItemOpen, CData ''t'', CData ''a'']"
proof -
  let ?p = "(example_project ''t'' None)\<lparr>description := Some ''a]]>b''\<rparr>"
  have t: "xml_tokens None (makeRSS example_platform [?p]) = [ItemOpen, CData ''t'', CData ''a'']"
    by code_simp
  have s: "sublist '']]>'' ''a]]>b''" by code_simp
  have "sublist (''<description><![CDATA['' @ or_empty (description ?p) @ '']]></description>'')
          (makeRSS example_platform [?p])"
    using makeRSS_cdata_verbatim [of 0 "[?p]" example_platform, THEN conjunct1] by simp
  then have "sublist ''<description><![CDATA[a]]>b]]></description>''
               (makeRSS example_platform [?p])"
    by (simp add: or_empty_def)
  with t s show ?thesis by simp
qed

end
